theory Spec2Isabelle
  imports Main "HOL-Library.Word" "HOL-Library.AList"
begin

unbundle bit_operations_syntax

section \<open>Text handling of the wire protocol\<close>

text \<open>
  Protocol text is Python \<open>str\<close>. A character is modelled by a HOL \<^typ>\<open>char\<close>, read as the
  code point of the same number (0 to 255). \<open>str.isspace\<close> is true of the code points listed
  below in that range; \<open>str.upper\<close> is modelled on the ASCII letters, every other character
  standing for itself.
\<close>

definition isspace :: "char \<Rightarrow> bool" where
  "isspace c = (of_char c \<in> set [9, 10, 11, 12, 13, 28, 29, 30, 31, 32, 133, 160 :: nat])"

definition strip :: "string \<Rightarrow> string" where
  "strip s = rev (dropWhile isspace (rev (dropWhile isspace s)))"

text \<open>
  \<open>s.split(maxsplit=n)\<close>: runs of whitespace separate the words; after \<open>n\<close> words the rest
  of the string, leading whitespace skipped, is the last element.
\<close>

fun split_maxsplit :: "nat \<Rightarrow> string \<Rightarrow> string list" where
  "split_maxsplit 0 s =
     (let r = dropWhile isspace s in if r = [] then [] else [r])"
| "split_maxsplit (Suc n) s =
     (let r = dropWhile isspace s in
      if r = [] then []
      else takeWhile (\<lambda>c. \<not> isspace c) r # split_maxsplit n (dropWhile (\<lambda>c. \<not> isspace c) r))"

primrec index_in :: "'a list \<Rightarrow> 'a \<Rightarrow> nat option" where
  "index_in [] c = None"
| "index_in (x # xs) c = (if x = c then Some 0 else map_option Suc (index_in xs c))"

definition to_upper :: "char \<Rightarrow> char" where
  "to_upper c = (case index_in ''abcdefghijklmnopqrstuvwxyz'' c of
     None \<Rightarrow> c
   | Some i \<Rightarrow> ''ABCDEFGHIJKLMNOPQRSTUVWXYZ'' ! i)"

definition upper :: "string \<Rightarrow> string" where
  "upper s = map to_upper s"

definition startswith :: "string \<Rightarrow> string \<Rightarrow> bool" where
  "startswith s p = (take (length p) s = p)"

text \<open>A word of a command line: not empty, no whitespace in it.\<close>

definition token :: "string \<Rightarrow> bool" where
  "token s = (s \<noteq> [] \<and> list_all (\<lambda>c. \<not> isspace c) s)"

function str_nat :: "nat \<Rightarrow> string" where
  "str_nat n =
     (if n < 10 then [''0123456789'' ! n] else str_nat (n div 10) @ [''0123456789'' ! (n mod 10)])"
  by pat_completeness auto
termination
  by (relation "measure id") auto

section \<open>Payload codec: base64\<close>

text \<open>
  \<open>base64.b64encode\<close> and \<open>base64.b64decode\<close> of the Python standard library, the second in
  its default, non-validating mode: characters outside the alphabet are discarded, and only the
  count of the remaining data characters and the padding decide whether decoding fails.
\<close>

type_synonym byte = "8 word"

definition b64_alphabet :: string where
  "b64_alphabet = ''ABCDEFGHIJKLMNOPQRSTUVWXYZabcdefghijklmnopqrstuvwxyz0123456789+/''"

definition table_b2a :: "byte \<Rightarrow> char" where
  "table_b2a v = b64_alphabet ! unat (v AND 63)"

definition table_a2b :: "char \<Rightarrow> byte option" where
  "table_a2b ch = map_option word_of_nat (index_in b64_alphabet ch)"

fun b2a_base64 :: "byte list \<Rightarrow> string" where
  "b2a_base64 [] = []"
| "b2a_base64 [a] =
     [table_b2a (drop_bit 2 a), table_b2a (push_bit 4 (a AND 3)), CHR ''='', CHR ''='']"
| "b2a_base64 [a, b] =
     [table_b2a (drop_bit 2 a), table_b2a (push_bit 4 (a AND 3) OR drop_bit 4 b),
      table_b2a (push_bit 2 (b AND 15)), CHR ''='']"
| "b2a_base64 (a # b # c # rest) =
     [table_b2a (drop_bit 2 a), table_b2a (push_bit 4 (a AND 3) OR drop_bit 4 b),
      table_b2a (push_bit 2 (b AND 15) OR drop_bit 6 c), table_b2a c] @ b2a_base64 rest"

datatype binascii_error = Incorrect_padding | Invalid_length nat

text \<open>
  The decoder's loop over the characters: \<open>quad_pos\<close> counts the data characters of the
  current group of four, \<open>leftchar\<close> holds the bits not yet written, \<open>pads\<close> the padding
  characters seen since the last data character.
\<close>

fun a2b_base64 :: "nat \<Rightarrow> byte \<Rightarrow> nat \<Rightarrow> byte list \<Rightarrow> string \<Rightarrow> binascii_error + byte list" where
  "a2b_base64 quad_pos leftchar pads out [] =
     (if quad_pos = 0 then Inr out
      else if quad_pos = 1 then Inl (Invalid_length (length out div 3 * 4 + 1))
      else Inl Incorrect_padding)"
| "a2b_base64 quad_pos leftchar pads out (ch # rest) =
     (if ch = CHR ''='' then
        (if quad_pos \<ge> 2 \<and> quad_pos + (pads + 1) \<ge> 4 then Inr out
         else a2b_base64 quad_pos leftchar (if quad_pos \<ge> 2 then pads + 1 else pads) out rest)
      else case table_a2b ch of
        None \<Rightarrow> a2b_base64 quad_pos leftchar pads out rest
      | Some v \<Rightarrow>
         (if quad_pos = 0 then a2b_base64 1 v 0 out rest
          else if quad_pos = 1 then
            a2b_base64 2 (v AND 15) 0 (out @ [push_bit 2 leftchar OR drop_bit 4 v]) rest
          else if quad_pos = 2 then
            a2b_base64 3 (v AND 3) 0 (out @ [push_bit 4 leftchar OR drop_bit 2 v]) rest
          else a2b_base64 0 0 0 (out @ [push_bit 6 leftchar OR v]) rest))"

section \<open>Exceptions\<close>

datatype errno = ENOENT | ENOTDIR | EISDIR | EEXIST | ENAMETOOLONG

datatype exception =
    OSError errno string
  | Binascii_Error binascii_error
  | ValueError string

definition b64encode :: "byte list \<Rightarrow> string" where
  "b64encode s = b2a_base64 s"

definition b64decode :: "string \<Rightarrow> exception + byte list" where
  "b64decode s =
     (if list_ex (\<lambda>c. 128 \<le> (of_char c :: nat)) s
      then Inl (ValueError ''string argument should contain only ASCII characters'')
      else case a2b_base64 0 0 0 [] s of
        Inl e \<Rightarrow> Inl (Binascii_Error e)
      | Inr b \<Rightarrow> Inr b)"

definition str_errno :: "errno \<Rightarrow> string" where
  "str_errno e = (case e of
     ENOENT \<Rightarrow> ''[Errno 2] No such file or directory: ''
   | ENOTDIR \<Rightarrow> ''[Errno 20] Not a directory: ''
   | EISDIR \<Rightarrow> ''[Errno 21] Is a directory: ''
   | EEXIST \<Rightarrow> ''[Errno 17] File exists: ''
   | ENAMETOOLONG \<Rightarrow> ''[Errno 36] File name too long: '')"

text \<open>
  \<open>repr\<close> of a string of code points below 256: between single quotes, or between double
  quotes when the string has a single quote and no double quote; the backslash and the
  enclosing quote are escaped, tab, line feed and carriage return are written \<open>\t\<close>, \<open>\n\<close>
  and \<open>\r\<close>, and a character that is not printable (below 32, from 127 to 160, and 173) is
  written \<open>\x\<close> with its two hexadecimal digits.
\<close>

definition repr_escape :: "char \<Rightarrow> char \<Rightarrow> string" where
  "repr_escape quote c =
     (let n = of_char c :: nat in
      if c = quote \<or> n = 92 then [CHR 0x5C, c]
      else if n = 9 then [CHR 0x5C, CHR ''t'']
      else if n = 10 then [CHR 0x5C, CHR ''n'']
      else if n = 13 then [CHR 0x5C, CHR ''r'']
      else if n < 32 \<or> (127 \<le> n \<and> n \<le> 160) \<or> n = 173 then
        [CHR 0x5C, CHR ''x'', ''0123456789abcdef'' ! (n div 16), ''0123456789abcdef'' ! (n mod 16)]
      else [c])"

definition repr :: "string \<Rightarrow> string" where
  "repr s =
     (let quote = (if CHR 0x27 \<in> set s \<and> CHR 0x22 \<notin> set s then CHR 0x22 else CHR 0x27)
      in [quote] @ concat (map (repr_escape quote) s) @ [quote])"

text \<open>\<open>str(e)\<close>; the file name of an \<open>OSError\<close> is shown as its \<open>repr\<close>.\<close>

definition str_exception :: "exception \<Rightarrow> string" where
  "str_exception e = (case e of
     OSError n name \<Rightarrow> str_errno n @ repr name
   | Binascii_Error Incorrect_padding \<Rightarrow> ''Incorrect padding''
   | Binascii_Error (Invalid_length k) \<Rightarrow>
       ''Invalid base64-encoded string: number of data characters ('' @ str_nat k @
       '') cannot be 1 more than a multiple of 4''
   | ValueError msg \<Rightarrow> msg)"
section \<open>Storage: the file system under the server\<close>

text \<open>
  The server keeps its files with \<open>os.path.join\<close>, \<open>os.path.exists\<close>, \<open>os.makedirs\<close>,
  \<open>open\<close>, \<open>os.remove\<close> and \<open>os.listdir\<close>. The file system is a table from resolved paths
  (the list of the names from the root) to nodes. Names are resolved as POSIX does for a
  file system with no symbolic links: component by component, \<open>.\<close> and an empty component
  standing still, \<open>..\<close> going to the parent, and every directory passed through must exist.
  The limits are those of Linux: a name is given to the system in UTF-8, a component of more
  than \<open>NAME_MAX\<close> bytes or a name of \<open>PATH_MAX\<close> bytes or more is refused with
  \<open>ENAMETOOLONG\<close>, and Python refuses a name with a null character before the system sees
  it. Every directory may be read and written, and one connection works on the file system
  at a time.
\<close>

type_synonym path = "string list"

datatype node = File "byte list" | Dir

record os_state =
  cwd :: path
  entries :: "(path \<times> node) list"

definition lookup :: "os_state \<Rightarrow> path \<Rightarrow> node option" where
  "lookup os p = (if p = [] then Some Dir else map_of (entries os) p)"

fun split_slash :: "string \<Rightarrow> string list" where
  "split_slash [] = [[]]"
| "split_slash (c # cs) =
     (if c = CHR ''/'' then [] # split_slash cs
      else case split_slash cs of [] \<Rightarrow> [[c]] | w # ws \<Rightarrow> (c # w) # ws)"

definition NAME_MAX :: nat where
  "NAME_MAX = 255"

definition PATH_MAX :: nat where
  "PATH_MAX = 4096"

text \<open>The number of bytes of the UTF-8 form of a string of code points below 256.\<close>

definition fs_len :: "string \<Rightarrow> nat" where
  "fs_len s = length s + length (filter (\<lambda>c. 128 \<le> (of_char c :: nat)) s)"

definition embedded_null :: "string \<Rightarrow> bool" where
  "embedded_null name = (CHR 0x00 \<in> set name)"

definition enter :: "path \<Rightarrow> string \<Rightarrow> path" where
  "enter p c = (if c = [] \<or> c = ''.'' then p else if c = ''..'' then butlast p else p @ [c])"

fun walk :: "os_state \<Rightarrow> path \<Rightarrow> string list \<Rightarrow> errno + path" where
  "walk os p [] = Inr p"
| "walk os p (c # cs) =
     (case lookup os p of
        None \<Rightarrow> Inl ENOENT
      | Some (File content) \<Rightarrow> Inl ENOTDIR
      | Some Dir \<Rightarrow>
          if NAME_MAX < fs_len c then Inl ENAMETOOLONG
          else walk os (enter p c) cs)"

definition resolve :: "os_state \<Rightarrow> string \<Rightarrow> errno + path" where
  "resolve os name =
     (if name = [] then Inl ENOENT
      else if PATH_MAX \<le> fs_len name then Inl ENAMETOOLONG
      else walk os (if hd name = CHR ''/'' then [] else cwd os) (split_slash name))"

text \<open>The path a name stands for when a system call is made with it from Python.\<close>

definition fs_path :: "os_state \<Rightarrow> string \<Rightarrow> exception + path" where
  "fs_path os name =
     (if embedded_null name then Inl (ValueError ''embedded null byte'')
      else case resolve os name of
        Inl e \<Rightarrow> Inl (OSError e name)
      | Inr p \<Rightarrow> Inr p)"

definition path_join :: "string \<Rightarrow> string \<Rightarrow> string" where
  "path_join a b =
     (if b \<noteq> [] \<and> hd b = CHR ''/'' then b
      else if a = [] \<or> last a = CHR ''/'' then a @ b
      else a @ ''/'' @ b)"

text \<open>
  A plain name: a word with no slash that is neither \<open>.\<close> nor \<open>..\<close>; as a path it has one
  component and names an entry of the directory it is looked up in.
\<close>

definition plain_name :: "string \<Rightarrow> bool" where
  "plain_name s = (token s \<and> CHR ''/'' \<notin> set s \<and> s \<noteq> ''.'' \<and> s \<noteq> ''..'')"

text \<open>\<open>os.path.exists\<close>: false also when \<open>os.stat\<close> raises.\<close>

definition path_exists :: "os_state \<Rightarrow> string \<Rightarrow> bool" where
  "path_exists os name =
     (case fs_path os name of Inl e \<Rightarrow> False | Inr p \<Rightarrow> lookup os p \<noteq> None)"

definition rstrip_slash :: "string \<Rightarrow> string" where
  "rstrip_slash s = rev (dropWhile (\<lambda>c. c = CHR ''/'') (rev s))"

text \<open>\<open>os.path.split\<close>: the part up to the last slash, its trailing slashes removed, and the rest.\<close>

definition posix_split :: "string \<Rightarrow> string \<times> string" where
  "posix_split p =
     (let tail = rev (takeWhile (\<lambda>c. c \<noteq> CHR ''/'') (rev p));
          head = rev (dropWhile (\<lambda>c. c \<noteq> CHR ''/'') (rev p))
      in (if head \<noteq> [] \<and> \<not> list_all (\<lambda>c. c = CHR ''/'') head then rstrip_slash head else head,
          tail))"

text \<open>\<open>os.mkdir\<close>; trailing slashes of the name do not count.\<close>

definition mkdir :: "os_state \<Rightarrow> string \<Rightarrow> exception option \<times> os_state" where
  "mkdir os name =
     (if embedded_null name then (Some (ValueError ''embedded null byte''), os)
      else if PATH_MAX \<le> fs_len name then (Some (OSError ENAMETOOLONG name), os)
      else
        (case resolve os (if rstrip_slash name = [] then name else rstrip_slash name) of
           Inl e \<Rightarrow> (Some (OSError e name), os)
         | Inr p \<Rightarrow>
             (case lookup os p of
                Some n \<Rightarrow> (Some (OSError EEXIST name), os)
              | None \<Rightarrow>
                  if lookup os (butlast p) = Some Dir
                  then (None, os\<lparr>entries := AList.update p Dir (entries os)\<rparr>)
                  else (Some (OSError ENOENT name), os))))"

text \<open>
  \<open>os.makedirs(name)\<close>: the parent first when it does not exist (a \<open>FileExistsError\<close> from
  there is passed over), then the directory itself, unless its last component is \<open>.\<close>.
\<close>

definition makedirs_split :: "string \<Rightarrow> string \<times> string" where
  "makedirs_split name =
     (if snd (posix_split name) = [] then posix_split (fst (posix_split name))
      else posix_split name)"

function makedirs :: "os_state \<Rightarrow> string \<Rightarrow> exception option \<times> os_state" where
  "makedirs os name =
     (if fst (makedirs_split name) \<noteq> [] \<and> snd (makedirs_split name) \<noteq> []
         \<and> \<not> path_exists os (fst (makedirs_split name))
      then
        (case makedirs os (fst (makedirs_split name)) of
           (None, os') \<Rightarrow>
             if snd (makedirs_split name) = ''.'' then (None, os') else mkdir os' name
         | (Some (OSError EEXIST n), os') \<Rightarrow>
             if snd (makedirs_split name) = ''.'' then (None, os') else mkdir os' name
         | (Some e, os') \<Rightarrow> (Some e, os'))
      else mkdir os name)"
  by pat_completeness auto

lemma length_rstrip_slash: "length (rstrip_slash s) \<le> length s"
proof -
  have "length (dropWhile (\<lambda>c. c = CHR ''/'') (rev s)) \<le> length (rev s)"
    by (rule length_dropWhile_le)
  then show ?thesis by (simp add: rstrip_slash_def)
qed

lemma length_takeWhile_dropWhile:
  "length (takeWhile P xs) + length (dropWhile P xs) = length xs"
  by (induction xs) simp_all

lemma length_posix_split:
  "length (fst (posix_split p)) + length (snd (posix_split p)) \<le> length p"
proof -
  let ?h = "dropWhile (\<lambda>c. c \<noteq> CHR ''/'') (rev p)"
  let ?t = "takeWhile (\<lambda>c. c \<noteq> CHR ''/'') (rev p)"
  have 1: "length ?t + length ?h = length p"
    using length_takeWhile_dropWhile [of "\<lambda>c. c \<noteq> CHR ''/''" "rev p"] by simp
  have 2: "length (rstrip_slash (rev ?h)) \<le> length ?h"
    using length_rstrip_slash [of "rev ?h"] by simp
  show ?thesis
    using 1 2 by (simp add: posix_split_def Let_def)
qed

lemma length_posix_split_less:
  assumes "snd (posix_split p) \<noteq> []"
  shows "length (fst (posix_split p)) < length p"
proof -
  from assms have "0 < length (snd (posix_split p))" by simp
  with length_posix_split [of p] show ?thesis by linarith
qed

lemma length_makedirs_split:
  assumes "snd (makedirs_split name) \<noteq> []"
  shows "length (fst (makedirs_split name)) < length name"
proof (cases "snd (posix_split name) = []")
  case True
  with assms have "snd (posix_split (fst (posix_split name))) \<noteq> []"
    by (simp add: makedirs_split_def)
  then have "length (fst (posix_split (fst (posix_split name)))) < length (fst (posix_split name))"
    by (rule length_posix_split_less)
  moreover have "length (fst (posix_split name)) \<le> length name"
    using length_posix_split [of name] by simp
  ultimately show ?thesis using True by (simp add: makedirs_split_def)
next
  case False
  then show ?thesis
    using length_posix_split_less [of name] by (simp add: makedirs_split_def)
qed

termination makedirs
  by (relation "measure (\<lambda>(os, name). length name)") (simp_all add: length_makedirs_split)

declare makedirs.simps [simp del]

text \<open>
  The last component of a name without its trailing slashes, and the directory that
  component is looked up in (\<open>.\<close> after what comes before the component).
\<close>

definition last_component :: "string \<Rightarrow> string" where
  "last_component name = rev (takeWhile (\<lambda>c. c \<noteq> CHR ''/'') (rev (rstrip_slash name)))"

definition parent_dir :: "string \<Rightarrow> string" where
  "parent_dir name = rev (dropWhile (\<lambda>c. c \<noteq> CHR ''/'') (rev (rstrip_slash name))) @ ''.''"

text \<open>
  \<open>open(name, "wb")\<close> followed by \<open>write\<close>: the file is made or replaced. A name that ends
  with a slash after a component other than \<open>.\<close> and \<open>..\<close> is refused with \<open>EISDIR\<close> once the
  directory of that component has been reached, whatever the component names.
\<close>

definition write_file :: "os_state \<Rightarrow> string \<Rightarrow> byte list \<Rightarrow> exception + os_state" where
  "write_file os name content =
     (if embedded_null name then Inl (ValueError ''embedded null byte'')
      else if name \<noteq> [] \<and> last name = CHR ''/'' \<and> last_component name \<noteq> []
          \<and> last_component name \<noteq> ''.'' \<and> last_component name \<noteq> ''..''
      then
        (if PATH_MAX \<le> fs_len name then Inl (OSError ENAMETOOLONG name)
         else case resolve os (parent_dir name) of
           Inl e \<Rightarrow> Inl (OSError e name)
         | Inr p \<Rightarrow> Inl (OSError EISDIR name))
      else
        (case resolve os name of
           Inl e \<Rightarrow> Inl (OSError e name)
         | Inr p \<Rightarrow>
             (case lookup os p of
                Some Dir \<Rightarrow> Inl (OSError EISDIR name)
              | Some (File old) \<Rightarrow> Inr (os\<lparr>entries := AList.update p (File content) (entries os)\<rparr>)
              | None \<Rightarrow>
                  if lookup os (butlast p) = Some Dir
                  then Inr (os\<lparr>entries := AList.update p (File content) (entries os)\<rparr>)
                  else Inl (OSError ENOENT name))))"

text \<open>\<open>open(name, "rb")\<close> followed by \<open>read\<close>.\<close>

definition read_file :: "os_state \<Rightarrow> string \<Rightarrow> exception + byte list" where
  "read_file os name =
     (case fs_path os name of
        Inl e \<Rightarrow> Inl e
      | Inr p \<Rightarrow>
          (case lookup os p of
             None \<Rightarrow> Inl (OSError ENOENT name)
           | Some Dir \<Rightarrow> Inl (OSError EISDIR name)
           | Some (File content) \<Rightarrow> Inr content))"

text \<open>\<open>os.remove\<close>.\<close>

definition remove :: "os_state \<Rightarrow> string \<Rightarrow> exception + os_state" where
  "remove os name =
     (case fs_path os name of
        Inl e \<Rightarrow> Inl e
      | Inr p \<Rightarrow>
          (case lookup os p of
             None \<Rightarrow> Inl (OSError ENOENT name)
           | Some Dir \<Rightarrow> Inl (OSError EISDIR name)
           | Some (File content) \<Rightarrow> Inr (os\<lparr>entries := AList.delete p (entries os)\<rparr>)))"

text \<open>\<open>os.listdir\<close>: the names of the entries directly in the directory.\<close>

definition children :: "os_state \<Rightarrow> path \<Rightarrow> string list" where
  "children os d = map (\<lambda>e. last (fst e)) (filter (\<lambda>e. fst e \<noteq> [] \<and> butlast (fst e) = d) (entries os))"

definition listdir :: "os_state \<Rightarrow> string \<Rightarrow> exception + string list" where
  "listdir os name =
     (case fs_path os name of
        Inl e \<Rightarrow> Inl e
      | Inr p \<Rightarrow>
          (case lookup os p of
             None \<Rightarrow> Inl (OSError ENOENT name)
           | Some (File content) \<Rightarrow> Inl (OSError ENOTDIR name)
           | Some Dir \<Rightarrow> Inr (children os p)))"

subsection \<open>\<open>json.dumps\<close> of a list of strings\<close>

definition json_escape :: "char \<Rightarrow> string" where
  "json_escape c =
     (let n = of_char c :: nat in
      if n = 34 then [CHR 0x5C, CHR 0x22]
      else if n = 92 then [CHR 0x5C, CHR 0x5C]
      else if n = 10 then [CHR 0x5C, CHR ''n'']
      else if n = 13 then [CHR 0x5C, CHR ''r'']
      else if n = 9 then [CHR 0x5C, CHR ''t'']
      else if n = 8 then [CHR 0x5C, CHR ''b'']
      else if n = 12 then [CHR 0x5C, CHR ''f'']
      else if n < 32 \<or> 126 < n then
        [CHR 0x5C, CHR ''u'', CHR ''0'', CHR ''0'',
         ''0123456789abcdef'' ! (n div 16), ''0123456789abcdef'' ! (n mod 16)]
      else [c])"

definition json_string :: "string \<Rightarrow> string" where
  "json_string s = [CHR 0x22] @ concat (map json_escape s) @ [CHR 0x22]"

fun join_with :: "string \<Rightarrow> string list \<Rightarrow> string" where
  "join_with sep [] = []"
| "join_with sep [x] = x"
| "join_with sep (x # y # ys) = x @ sep @ join_with sep (y # ys)"

definition json_dumps :: "string list \<Rightarrow> string" where
  "json_dumps xs = ''['' @ join_with '', '' (map json_string xs) @ '']''"

section \<open>The server: \<open>FileServer\<close>\<close>

record FileServer =
  storage_dir :: string
  users :: "string \<Rightarrow> string option"

definition get_user_dir :: "FileServer \<Rightarrow> os_state \<Rightarrow> string \<Rightarrow> (exception + string) \<times> os_state" where
  "get_user_dir srv os username =
     (let user_dir = path_join (storage_dir srv) username in
      if \<not> path_exists os user_dir then
        (case makedirs os user_dir of
           (Some e, os') \<Rightarrow> (Inl e, os')
         | (None, os') \<Rightarrow> (Inr user_dir, os'))
      else (Inr user_dir, os))"

text \<open>
  One turn of the loop of \<open>handle_client\<close>: what is handed to \<open>client_socket.send\<close> (which
  is taken to succeed), the connection's \<open>authenticated_user\<close> and the file system afterwards,
  and whether the loop goes on (\<open>running\<close> is false when an exception leaves the loop and the
  connection is closed).
\<close>

record outcome =
  sent :: "string option"
  authenticated_user :: "string option"
  fs :: os_state
  running :: bool

definition respond :: "string \<Rightarrow> string option \<Rightarrow> os_state \<Rightarrow> outcome" where
  "respond msg au os = \<lparr>sent = Some msg, authenticated_user = au, fs = os, running = True\<rparr>"

definition raised :: "string option \<Rightarrow> os_state \<Rightarrow> outcome" where
  "raised au os = \<lparr>sent = None, authenticated_user = au, fs = os, running = False\<rparr>"

definition handle_auth :: "FileServer \<Rightarrow> string option \<Rightarrow> os_state \<Rightarrow> string list \<Rightarrow> outcome" where
  "handle_auth srv au os parts =
     (if length parts \<noteq> 3 then respond ''ERROR Invalid auth command'' au os
      else
        (let username = parts ! 1; password = parts ! 2 in
         case users srv username of
           Some stored_password \<Rightarrow>
             if stored_password = password then respond ''OK Authenticated'' (Some username) os
             else respond ''ERROR Invalid password'' au os
         | None \<Rightarrow> respond ''ERROR User not found'' au os))"

definition handle_upload :: "FileServer \<Rightarrow> string \<Rightarrow> os_state \<Rightarrow> string list \<Rightarrow> outcome" where
  "handle_upload srv user os parts =
     (if length parts < 3 then respond ''ERROR Invalid upload command'' (Some user) os
      else
        (let filename = parts ! 1; file_data = parts ! 2 in
         case b64decode file_data of
           Inl e \<Rightarrow> respond (''ERROR Upload failed: '' @ str_exception e) (Some user) os
         | Inr file_content \<Rightarrow>
             (case get_user_dir srv os user of
                (Inl e, os1) \<Rightarrow>
                  respond (''ERROR Upload failed: '' @ str_exception e) (Some user) os1
              | (Inr user_dir, os1) \<Rightarrow>
                  (case write_file os1 (path_join user_dir filename) file_content of
                     Inl e \<Rightarrow>
                       respond (''ERROR Upload failed: '' @ str_exception e) (Some user) os1
                   | Inr os2 \<Rightarrow> respond ''OK File uploaded'' (Some user) os2))))"

definition handle_download :: "FileServer \<Rightarrow> string \<Rightarrow> os_state \<Rightarrow> string list \<Rightarrow> outcome" where
  "handle_download srv user os parts =
     (if length parts \<noteq> 2 then respond ''ERROR Invalid download command'' (Some user) os
      else
        (let filename = parts ! 1 in
         case get_user_dir srv os user of
           (Inl e, os1) \<Rightarrow> raised (Some user) os1
         | (Inr user_dir, os1) \<Rightarrow>
             (case read_file os1 (path_join user_dir filename) of
                Inr file_content \<Rightarrow> respond (''OK '' @ b64encode file_content) (Some user) os1
              | Inl (OSError ENOENT n) \<Rightarrow> respond ''ERROR File not found'' (Some user) os1
              | Inl e \<Rightarrow>
                  respond (''ERROR Download failed: '' @ str_exception e) (Some user) os1)))"

definition handle_delete :: "FileServer \<Rightarrow> string \<Rightarrow> os_state \<Rightarrow> string list \<Rightarrow> outcome" where
  "handle_delete srv user os parts =
     (if length parts \<noteq> 2 then respond ''ERROR Invalid delete command'' (Some user) os
      else
        (let filename = parts ! 1 in
         case get_user_dir srv os user of
           (Inl e, os1) \<Rightarrow> raised (Some user) os1
         | (Inr user_dir, os1) \<Rightarrow>
             (case remove os1 (path_join user_dir filename) of
                Inr os2 \<Rightarrow> respond ''OK File deleted'' (Some user) os2
              | Inl (OSError ENOENT n) \<Rightarrow> respond ''ERROR File not found'' (Some user) os1
              | Inl e \<Rightarrow>
                  respond (''ERROR Delete failed: '' @ str_exception e) (Some user) os1)))"

definition handle_list :: "FileServer \<Rightarrow> string \<Rightarrow> os_state \<Rightarrow> outcome" where
  "handle_list srv user os =
     (case get_user_dir srv os user of
        (Inl e, os1) \<Rightarrow> respond (''ERROR List failed: '' @ str_exception e) (Some user) os1
      | (Inr user_dir, os1) \<Rightarrow>
          (case listdir os1 user_dir of
             Inl e \<Rightarrow> respond (''ERROR List failed: '' @ str_exception e) (Some user) os1
           | Inr files \<Rightarrow> respond (''OK '' @ json_dumps files) (Some user) os1))"

text \<open>The body of the loop for the text \<open>data.decode()\<close> of one received message.\<close>

definition handle_command :: "FileServer \<Rightarrow> string option \<Rightarrow> os_state \<Rightarrow> string \<Rightarrow> outcome" where
  "handle_command srv au os data =
     (let command = strip data in
      if command = [] then \<lparr>sent = None, authenticated_user = au, fs = os, running = True\<rparr>
      else
        (let parts = split_maxsplit 2 command in
         if parts = [] then respond ''ERROR Invalid command format'' au os
         else
           (let cmd = upper (hd parts) in
            if cmd = ''AUTH'' then handle_auth srv au os parts
            else
              (case au of
                 None \<Rightarrow> respond ''ERROR Authentication required'' au os
               | Some user \<Rightarrow>
                   if cmd = ''UPLOAD'' then handle_upload srv user os parts
                   else if cmd = ''DOWNLOAD'' then handle_download srv user os parts
                   else if cmd = ''DELETE'' then handle_delete srv user os parts
                   else if cmd = ''LIST'' then handle_list srv user os
                   else respond ''ERROR Unknown command'' au os))))"

text \<open>
  What \<open>recv\<close> gives in one turn: text (empty when the peer has closed the connection), a
  timeout, or bytes that are not UTF-8, on which \<open>decode\<close> raises.
\<close>

datatype recv = Data string | Timeout | Undecodable

text \<open>
  \<open>handle_client\<close> over the messages of one connection, from \<open>authenticated_user = None\<close> in
  the source: the messages sent, and the user and the file system when the list is used up
  or the loop is left.
\<close>

fun handle_client :: "FileServer \<Rightarrow> string option \<Rightarrow> os_state \<Rightarrow> recv list \<Rightarrow>
    string list \<times> string option \<times> os_state" where
  "handle_client srv au os [] = ([], au, os)"
| "handle_client srv au os (Timeout # evs) = handle_client srv au os evs"
| "handle_client srv au os (Undecodable # evs) = ([], au, os)"
| "handle_client srv au os (Data d # evs) =
     (if d = [] then ([], au, os)
      else
        (let out = handle_command srv au os d;
             msgs = (case sent out of None \<Rightarrow> [] | Some m \<Rightarrow> [m])
         in if running out then
              (case handle_client srv (authenticated_user out) (fs out) evs of
                 (rest, au', os') \<Rightarrow> (msgs @ rest, au', os'))
            else (msgs, authenticated_user out, fs out)))"

section \<open>The client: \<open>FileClient\<close>\<close>

text \<open>
  A socket object is a number, a new one for every \<open>socket.socket()\<close>; \<open>accepts s e\<close> says
  whether \<open>connect\<close> of socket \<open>s\<close> to the endpoint \<open>e\<close> succeeds.
\<close>

type_synonym endpoint = "string \<times> nat"

record FileClient =
  nodes :: "endpoint list"
  current_node :: nat
  session :: "nat option"
  authenticated :: bool

definition init_client :: "endpoint list \<Rightarrow> FileClient" where
  "init_client ns = \<lparr>nodes = ns, current_node = 0, session = None, authenticated = False\<rparr>"

text \<open>
  The loop of \<open>_connect_to_next_node\<close>. The result is \<open>Some True\<close> or \<open>Some False\<close> as the
  method returns, \<open>None\<close> when it raises (an index outside \<open>nodes\<close> on the first turn); with it
  the endpoints tried in order (the lines \<open>Connecting to ...\<close>), the next unused socket number
  and the client.
\<close>

function connect_loop :: "(nat \<Rightarrow> endpoint \<Rightarrow> bool) \<Rightarrow> nat \<Rightarrow> nat \<Rightarrow> FileClient \<Rightarrow>
    bool option \<times> endpoint list \<times> nat \<times> FileClient" where
  "connect_loop accepts sock attempts c =
     (if attempts < length (nodes c) then
        (if current_node c < length (nodes c) then
           (if accepts sock (nodes c ! current_node c)
            then (Some True, [nodes c ! current_node c], Suc sock, c\<lparr>session := Some sock\<rparr>)
            else
              (case connect_loop accepts (Suc sock) (Suc attempts)
                      (c\<lparr>session := Some sock,
                         current_node := (current_node c + 1) mod length (nodes c)\<rparr>) of
                 (r, tried, sock', c') \<Rightarrow> (r, (nodes c ! current_node c) # tried, sock', c')))
         else (None, [], sock, c))
      else (Some False, [], sock, c))"
  by pat_completeness auto
termination
  by (relation "measure (\<lambda>(accepts, sock, attempts, c). length (nodes c) - attempts)") auto

declare connect_loop.simps [simp del]

definition connect_to_next_node :: "(nat \<Rightarrow> endpoint \<Rightarrow> bool) \<Rightarrow> nat \<Rightarrow> FileClient \<Rightarrow>
    bool option \<times> endpoint list \<times> nat \<times> FileClient" where
  "connect_to_next_node accepts sock c =
     connect_loop accepts sock 0
       (if session c \<noteq> None then c\<lparr>session := None, authenticated := False\<rparr> else c)"

definition ensure_connected :: "(nat \<Rightarrow> endpoint \<Rightarrow> bool) \<Rightarrow> nat \<Rightarrow> FileClient \<Rightarrow>
    bool option \<times> endpoint list \<times> nat \<times> FileClient" where
  "ensure_connected accepts sock c =
     (if session c = None then connect_to_next_node accepts sock c
      else (Some True, [], sock, c))"

text \<open>
  What the network does to one command: a \<open>send\<close> raises (or returns 0), the \<open>recv\<close> times
  out or raises, or the response arrives.
\<close>

datatype io = Send_raises | Recv_timeout | Recv_raises | Recv string

definition send_command :: "(nat \<Rightarrow> endpoint \<Rightarrow> bool) \<Rightarrow> nat \<Rightarrow> FileClient \<Rightarrow> string \<Rightarrow> io \<Rightarrow>
    string option \<times> nat \<times> FileClient" where
  "send_command accepts sock c command net =
     (case ensure_connected accepts sock c of
        (r, tried, sock', c') \<Rightarrow>
          if r \<noteq> Some True then (None, sock', c')
          else
            (case net of
               Send_raises \<Rightarrow> (None, sock', c'\<lparr>session := None\<rparr>)
             | Recv_timeout \<Rightarrow> (None, sock', c')
             | Recv_raises \<Rightarrow> (None, sock', c')
             | Recv response \<Rightarrow> (Some response, sock', c')))"

definition authenticate :: "(nat \<Rightarrow> endpoint \<Rightarrow> bool) \<Rightarrow> nat \<Rightarrow> FileClient \<Rightarrow> string \<Rightarrow> string \<Rightarrow> io \<Rightarrow>
    bool \<times> nat \<times> FileClient" where
  "authenticate accepts sock c username password net =
     (case send_command accepts sock c (''AUTH '' @ username @ '' '' @ password) net of
        (Some response, sock', c') \<Rightarrow>
          if response \<noteq> [] \<and> startswith response ''OK''
          then (True, sock', c'\<lparr>authenticated := True\<rparr>)
          else (False, sock', c')
      | (None, sock', c') \<Rightarrow> (False, sock', c'))"

definition delete_file :: "(nat \<Rightarrow> endpoint \<Rightarrow> bool) \<Rightarrow> nat \<Rightarrow> FileClient \<Rightarrow> string \<Rightarrow> io \<Rightarrow>
    bool \<times> nat \<times> FileClient" where
  "delete_file accepts sock c filename net =
     (if \<not> authenticated c then (False, sock, c)
      else
        (case send_command accepts sock c (''DELETE '' @ filename) net of
           (Some response, sock', c') \<Rightarrow>
             (response \<noteq> [] \<and> startswith response ''OK'', sock', c')
         | (None, sock', c') \<Rightarrow> (False, sock', c')))"

section \<open>A server, a store and a client to run the definitions on\<close>

definition example_server :: FileServer where
  "example_server =
     \<lparr>storage_dir = ''storage'',
      users = [''alice'' \<mapsto> ''secret123'', ''bob'' \<mapsto> ''hunter2'']\<rparr>"

definition example_os :: os_state where
  "example_os =
     \<lparr>cwd = [''srv''],
      entries = [([''srv''], Dir), ([''srv'', ''storage''], Dir),
        ([''srv'', ''storage'', ''alice''], Dir), ([''srv'', ''storage'', ''bob''], Dir),
        ([''srv'', ''storage'', ''bob'', ''f''], File [104, 105])]\<rparr>"

text \<open>The same store before \<open>alice\<close> has sent a command: her directory is not there yet.\<close>

definition first_os :: os_state where
  "first_os =
     \<lparr>cwd = [''srv''],
      entries = [([''srv''], Dir), ([''srv'', ''storage''], Dir),
        ([''srv'', ''storage'', ''bob''], Dir),
        ([''srv'', ''storage'', ''bob'', ''f''], File [104, 105])]\<rparr>"

definition example_nodes :: "endpoint list" where
  "example_nodes = [(''deadE1'', 8080), (''liveE2'', 8081)]"

definition example_accepts :: "nat \<Rightarrow> endpoint \<Rightarrow> bool" where
  "example_accepts s e = (fst e = ''liveE2'')"

subsection \<open>Facts about the text functions\<close>

lemma isspace_space [simp]: "isspace CHR '' ''"
  by (simp add: isspace_def)

lemma strip_id:
  assumes "s \<noteq> []" "\<not> isspace (hd s)" "\<not> isspace (last s)"
  shows "strip s = s"
proof -
  from assms have 1: "dropWhile isspace s = s"
    by (cases s) simp_all
  from assms have "rev s \<noteq> []" "\<not> isspace (hd (rev s))"
    by (simp_all add: hd_rev)
  then have "dropWhile isspace (rev s) = rev s"
    by (cases "rev s") simp_all
  with 1 show ?thesis by (simp add: strip_def)
qed

lemma split_maxsplit_Nil: "split_maxsplit n s = [] \<longleftrightarrow> dropWhile isspace s = []"
  by (cases n) (simp_all add: Let_def)

lemma strip_not_all_space:
  assumes "strip s \<noteq> []"
  shows "dropWhile isspace (strip s) \<noteq> []"
proof -
  let ?t = "dropWhile isspace (rev (dropWhile isspace s))"
  from assms have t: "?t \<noteq> []" by (simp add: strip_def)
  then have 1: "\<not> isspace (hd ?t)" by (rule hd_dropWhile)
  from t have "hd ?t \<in> set ?t" by simp
  then have 2: "hd ?t \<in> set (strip s)"
    by (simp add: strip_def)
  show ?thesis
  proof
    assume "dropWhile isspace (strip s) = []"
    then have "\<forall>c\<in>set (strip s). isspace c"
      by (simp add: dropWhile_eq_Nil_conv)
    with 1 2 show False by blast
  qed
qed

lemma split_strip_not_Nil: "strip s \<noteq> [] \<Longrightarrow> split_maxsplit n (strip s) \<noteq> []"
  using strip_not_all_space [of s] by (simp add: split_maxsplit_Nil)

lemma token_lead: "token v \<Longrightarrow> dropWhile isspace (v @ r) = v @ r"
  by (cases v) (simp_all add: token_def)

lemma token_take: "token v \<Longrightarrow> takeWhile (\<lambda>c. \<not> isspace c) (v @ CHR '' '' # r) = v"
  by (simp add: token_def list_all_iff takeWhile_append2)

lemma token_drop: "token v \<Longrightarrow> dropWhile (\<lambda>c. \<not> isspace c) (v @ CHR '' '' # r) = CHR '' '' # r"
  by (simp add: token_def list_all_iff dropWhile_append2)

lemma token_take_all: "token v \<Longrightarrow> takeWhile (\<lambda>c. \<not> isspace c) v = v"
  by (simp add: token_def list_all_iff)

lemma token_drop_all: "token v \<Longrightarrow> dropWhile (\<lambda>c. \<not> isspace c) v = []"
  by (simp add: token_def list_all_iff)

lemma split_two_words:
  assumes "token v" "token a"
  shows "split_maxsplit 2 (v @ '' '' @ a) = [v, a]"
proof -
  have 1: "dropWhile isspace (v @ CHR '' '' # a) = v @ CHR '' '' # a"
    using assms(1) by (rule token_lead)
  have 2: "dropWhile isspace a = a"
    using token_lead [OF assms(2), of "[]"] by simp
  have 3: "v @ CHR '' '' # a \<noteq> []" "a \<noteq> []"
    using assms by (simp_all add: token_def)
  show ?thesis
    using 3 by (simp add: numeral_2_eq_2 1 2 token_take [OF assms(1)] token_drop [OF assms(1)]
        token_take_all [OF assms(2)] token_drop_all [OF assms(2)])
qed

lemma split_three_words:
  assumes "token v" "token a" "b \<noteq> []" "\<not> isspace (hd b)"
  shows "split_maxsplit 2 (v @ '' '' @ a @ '' '' @ b) = [v, a, b]"
proof -
  have 1: "dropWhile isspace (v @ CHR '' '' # a @ CHR '' '' # b) = v @ CHR '' '' # a @ CHR '' '' # b"
    using assms(1) by (rule token_lead)
  have 2: "dropWhile isspace (a @ CHR '' '' # b) = a @ CHR '' '' # b"
    using assms(2) by (rule token_lead)
  have 3: "dropWhile isspace b = b"
    using assms(3,4) by (cases b) simp_all
  have 4: "v @ CHR '' '' # a @ CHR '' '' # b \<noteq> []" "a @ CHR '' '' # b \<noteq> []"
    using assms by (simp_all add: token_def)
  show ?thesis
    using 4 assms(3)
    by (simp add: numeral_2_eq_2 1 2 3 token_take [OF assms(1)] token_drop [OF assms(1)]
        token_take [OF assms(2)] token_drop [OF assms(2)])
qed

subsection \<open>The codec round-trips\<close>

lemma and_3: "(v::byte) AND 3 = take_bit 2 v"
  by (simp add: take_bit_eq_mask mask_eq_exp_minus_1)

lemma and_15: "(v::byte) AND 15 = take_bit 4 v"
  by (simp add: take_bit_eq_mask mask_eq_exp_minus_1)

lemma and_63: "(v::byte) AND 63 = take_bit 6 v"
  by (simp add: take_bit_eq_mask mask_eq_exp_minus_1)

lemma byte_high_bit: "8 \<le> n \<Longrightarrow> \<not> bit (b::byte) n"
  by (auto dest: bit_imp_le_length)

lemma byte_eqI:
  assumes "bit a 0 = bit b 0" "bit a 1 = bit b 1" "bit a 2 = bit b 2" "bit a 3 = bit b 3"
    "bit a 4 = bit b 4" "bit a 5 = bit b 5" "bit a 6 = bit b 6" "bit a 7 = bit b 7"
  shows "(a::byte) = b"
proof (rule bit_word_eqI)
  fix n assume "n < LENGTH(8)"
  then have "n < 8" by simp
  then have "n \<in> {7, 5, 3, 1} \<or> n \<in> {6, 4, 2, 0}"
    by auto
  then show "bit a n = bit b n" using assms by auto
qed

lemma quad_byte1:
  "push_bit 2 (drop_bit 2 (a::byte) AND 63) OR
   drop_bit 4 ((push_bit 4 (a AND 3) OR drop_bit 4 b) AND 63) = a"
  unfolding and_3 and_15 and_63
  by (rule byte_eqI) (simp_all add: bit_simps byte_high_bit)

lemma quad_byte2:
  "push_bit 4 (((push_bit 4 ((a::byte) AND 3) OR drop_bit 4 b) AND 63) AND 15) OR
   drop_bit 2 ((push_bit 2 (b AND 15) OR drop_bit 6 c) AND 63) = b"
  unfolding and_3 and_15 and_63
  by (rule byte_eqI) (simp_all add: bit_simps byte_high_bit)

lemma quad_byte3:
  "push_bit 6 (((push_bit 2 ((b::byte) AND 15) OR drop_bit 6 c) AND 63) AND 3) OR (c AND 63) = c"
  unfolding and_3 and_15 and_63
  by (rule byte_eqI) (simp_all add: bit_simps byte_high_bit)

lemma tail_byte1:
  "push_bit 2 (drop_bit 2 (a::byte) AND 63) OR drop_bit 4 (push_bit 4 (a AND 3) AND 63) = a"
  unfolding and_3 and_15 and_63
  by (rule byte_eqI) (simp_all add: bit_simps byte_high_bit)

lemma tail_byte2:
  "push_bit 4 (((push_bit 4 ((a::byte) AND 3) OR drop_bit 4 b) AND 63) AND 15) OR
   drop_bit 2 (push_bit 2 (b AND 15) AND 63) = b"
  unfolding and_3 and_15 and_63
  by (rule byte_eqI) (simp_all add: bit_simps byte_high_bit)

lemma distinct_alphabet: "distinct b64_alphabet"
  by (simp add: b64_alphabet_def)

lemma length_alphabet: "length b64_alphabet = 64"
  by (simp add: b64_alphabet_def)

lemma and_63_less: "unat ((v::byte) AND 63) < 64"
proof -
  have "unat (v AND 63) \<le> unat (63 :: byte)"
    by (rule word_and_le1 [THEN word_le_nat_alt [THEN iffD1]])
  then show ?thesis by simp
qed

lemma index_in_nth: "distinct xs \<Longrightarrow> n < length xs \<Longrightarrow> index_in xs (xs ! n) = Some n"
proof (induction xs arbitrary: n)
  case Nil
  then show ?case by simp
next
  case (Cons x xs)
  then show ?case by (cases n) auto
qed

lemma table_a2b_b2a: "table_a2b (table_b2a v) = Some (v AND 63)"
proof -
  have "index_in b64_alphabet (b64_alphabet ! unat (v AND 63)) = Some (unat (v AND 63))"
    by (rule index_in_nth) (simp_all add: length_alphabet distinct_alphabet and_63_less)
  then show ?thesis
    by (simp add: table_a2b_def table_b2a_def)
qed

lemma table_b2a_in_alphabet: "table_b2a v \<in> set b64_alphabet"
  unfolding table_b2a_def by (rule nth_mem) (simp add: length_alphabet and_63_less)

lemma table_b2a_not_pad: "table_b2a v \<noteq> CHR ''=''"
proof -
  have "CHR ''='' \<notin> set b64_alphabet" by (simp add: b64_alphabet_def)
  with table_b2a_in_alphabet [of v] show ?thesis by metis
qed

lemma decode_quad:
  assumes "table_a2b c1 = Some v1" "c1 \<noteq> CHR ''=''" "table_a2b c2 = Some v2" "c2 \<noteq> CHR ''=''"
    "table_a2b c3 = Some v3" "c3 \<noteq> CHR ''=''" "table_a2b c4 = Some v4" "c4 \<noteq> CHR ''=''"
  shows "a2b_base64 0 0 0 out (c1 # c2 # c3 # c4 # rest) =
         a2b_base64 0 0 0 (out @ [push_bit 2 v1 OR drop_bit 4 v2,
           push_bit 4 (v2 AND 15) OR drop_bit 2 v3, push_bit 6 (v3 AND 3) OR v4]) rest"
  using assms by simp

lemma decode_tail2:
  assumes "table_a2b c1 = Some v1" "c1 \<noteq> CHR ''=''" "table_a2b c2 = Some v2" "c2 \<noteq> CHR ''=''"
  shows "a2b_base64 0 0 0 out [c1, c2, CHR ''='', CHR ''=''] =
         Inr (out @ [push_bit 2 v1 OR drop_bit 4 v2])"
  using assms by simp

lemma decode_tail3:
  assumes "table_a2b c1 = Some v1" "c1 \<noteq> CHR ''=''" "table_a2b c2 = Some v2" "c2 \<noteq> CHR ''=''"
    "table_a2b c3 = Some v3" "c3 \<noteq> CHR ''=''"
  shows "a2b_base64 0 0 0 out [c1, c2, c3, CHR ''=''] =
         Inr (out @ [push_bit 2 v1 OR drop_bit 4 v2, push_bit 4 (v2 AND 15) OR drop_bit 2 v3])"
  using assms by simp

lemma a2b_b2a_base64: "a2b_base64 0 0 0 out (b2a_base64 bs) = Inr (out @ bs)"
proof (induction bs arbitrary: out rule: b2a_base64.induct)
  case 1
  show ?case by simp
next
  case (2 a)
  show ?case
    by (simp only: b2a_base64.simps tail_byte1
        decode_tail2 [OF table_a2b_b2a table_b2a_not_pad table_a2b_b2a table_b2a_not_pad])
next
  case (3 a b)
  show ?case
    by (simp only: b2a_base64.simps quad_byte1 tail_byte2
        decode_tail3 [OF table_a2b_b2a table_b2a_not_pad table_a2b_b2a table_b2a_not_pad
          table_a2b_b2a table_b2a_not_pad])
next
  case (4 a b c rest)
  have "a2b_base64 0 0 0 out (b2a_base64 (a # b # c # rest)) =
        a2b_base64 0 0 0 (out @ [a, b, c]) (b2a_base64 rest)"
    by (simp only: b2a_base64.simps append_Cons append_Nil quad_byte1 quad_byte2 quad_byte3
        decode_quad [OF table_a2b_b2a table_b2a_not_pad table_a2b_b2a table_b2a_not_pad
          table_a2b_b2a table_b2a_not_pad table_a2b_b2a table_b2a_not_pad])
  then show ?case by (simp add: 4)
qed

lemma b2a_base64_chars: "c \<in> set (b2a_base64 bs) \<Longrightarrow> c \<in> set b64_alphabet \<or> c = CHR ''=''"
  by (induction bs rule: b2a_base64.induct) (auto simp: table_b2a_in_alphabet)

lemma alphabet_ascii: "c \<in> set b64_alphabet \<or> c = CHR ''='' \<Longrightarrow> (of_char c :: nat) < 128 \<and> \<not> isspace c"
  by (auto simp: b64_alphabet_def isspace_def)

lemma b64decode_b64encode: "b64decode (b64encode bs) = Inr bs"
proof -
  have "\<not> list_ex (\<lambda>c. 128 \<le> (of_char c :: nat)) (b2a_base64 bs)"
    using b2a_base64_chars alphabet_ascii by (fastforce simp: list_ex_iff)
  then show ?thesis
    by (simp add: b64decode_def b64encode_def a2b_b2a_base64)
qed

section \<open>The server's turn of the loop\<close>

lemma split_maxsplit_empty: "split_maxsplit n [] = []"
  by (cases n) simp_all

lemma handle_command_dispatch:
  assumes "split_maxsplit 2 (strip data) = p # ps"
  shows "handle_command srv au os data =
    (if upper p = ''AUTH'' then handle_auth srv au os (p # ps)
     else case au of
        None \<Rightarrow> respond ''ERROR Authentication required'' au os
      | Some user \<Rightarrow>
          if upper p = ''UPLOAD'' then handle_upload srv user os (p # ps)
          else if upper p = ''DOWNLOAD'' then handle_download srv user os (p # ps)
          else if upper p = ''DELETE'' then handle_delete srv user os (p # ps)
          else if upper p = ''LIST'' then handle_list srv user os
          else respond ''ERROR Unknown command'' au os)"
proof -
  have "strip data \<noteq> []"
    using assms split_maxsplit_empty [of 2] by auto
  then show ?thesis
    using assms by (simp add: handle_command_def Let_def)
qed

lemma handle_command_cases:
  obtains (empty) "strip data = []"
      "handle_command srv au os data = \<lparr>sent = None, authenticated_user = au, fs = os, running = True\<rparr>"
    | (parts) p ps where "strip data \<noteq> []" "split_maxsplit 2 (strip data) = p # ps"
proof (cases "strip data = []")
  case True
  then show ?thesis by (intro empty) (simp_all add: handle_command_def)
next
  case False
  then have "split_maxsplit 2 (strip data) \<noteq> []" by (rule split_strip_not_Nil)
  then obtain p ps where "split_maxsplit 2 (strip data) = p # ps"
    by (cases "split_maxsplit 2 (strip data)") auto
  with False show ?thesis by (rule parts)
qed

lemma handle_auth_result:
  "handle_auth srv au os [verb, user, pass] =
     (case users srv user of
        None \<Rightarrow> respond ''ERROR User not found'' au os
      | Some secret \<Rightarrow>
          if secret = pass then respond ''OK Authenticated'' (Some user) os
          else respond ''ERROR Invalid password'' au os)"
  by (simp add: handle_auth_def)

lemma handle_auth_user:
  "authenticated_user (handle_auth srv au os parts) = au \<or>
   (\<exists>verb user pass. parts = [verb, user, pass] \<and> users srv user = Some pass \<and>
      authenticated_user (handle_auth srv au os parts) = Some user \<and>
      sent (handle_auth srv au os parts) = Some ''OK Authenticated'')"
proof (cases "length parts = 3")
  case True
  then obtain verb user pass where parts: "parts = [verb, user, pass]"
    by (auto simp: length_Suc_conv numeral_3_eq_3)
  show ?thesis
    unfolding parts handle_auth_result
    by (cases "users srv user") (auto simp: respond_def)
next
  case False
  then show ?thesis by (simp add: handle_auth_def respond_def)
qed

lemma handle_upload_user: "authenticated_user (handle_upload srv user os parts) = Some user"
  by (simp add: handle_upload_def respond_def Let_def split: sum.splits prod.splits)

lemma handle_download_user: "authenticated_user (handle_download srv user os parts) = Some user"
  by (simp add: handle_download_def respond_def raised_def Let_def
      split: sum.splits prod.splits exception.splits errno.splits)

lemma handle_delete_user: "authenticated_user (handle_delete srv user os parts) = Some user"
  by (simp add: handle_delete_def respond_def raised_def Let_def
      split: sum.splits prod.splits exception.splits errno.splits)

lemma handle_list_user: "authenticated_user (handle_list srv user os) = Some user"
  by (simp add: handle_list_def respond_def split: sum.splits prod.splits)

lemma handle_command_user:
  "authenticated_user (handle_command srv au os data) = au \<or>
   (\<exists>verb user pass. split_maxsplit 2 (strip data) = [verb, user, pass] \<and> upper verb = ''AUTH'' \<and>
      users srv user = Some pass \<and>
      authenticated_user (handle_command srv au os data) = Some user \<and>
      sent (handle_command srv au os data) = Some ''OK Authenticated'')"
proof (cases data rule: handle_command_cases [where srv = srv and au = au and os = os])
  case empty
  then show ?thesis by simp
next
  case (parts p ps)
  note d = handle_command_dispatch [OF parts(2), of srv au os]
  show ?thesis
  proof (cases "upper p = ''AUTH''")
    case True
    with d have "handle_command srv au os data = handle_auth srv au os (p # ps)" by simp
    with handle_auth_user [of srv au os "p # ps"] parts(2) True show ?thesis by auto
  next
    case False
    with d show ?thesis
      by (cases au)
        (simp_all add: respond_def handle_upload_user handle_download_user handle_delete_user
          handle_list_user)
  qed
qed

lemma handle_command_stays_authenticated:
  assumes "au \<noteq> None"
  shows "authenticated_user (handle_command srv au os data) \<noteq> None"
  using handle_command_user [of srv au os data] assms by auto

lemma handle_client_stays_authenticated:
  "au \<noteq> None \<Longrightarrow> fst (snd (handle_client srv au os evs)) \<noteq> None"
proof (induction evs arbitrary: au os)
  case Nil
  then show ?case by simp
next
  case (Cons ev evs)
  show ?case
  proof (cases ev)
    case (Data d)
    let ?out = "handle_command srv au os d"
    have 1: "authenticated_user ?out \<noteq> None"
      using Cons.prems by (rule handle_command_stays_authenticated)
    then have "fst (snd (handle_client srv (authenticated_user ?out) (fs ?out) evs)) \<noteq> None"
      by (rule Cons.IH)
    with 1 Cons.prems Data show ?thesis
      by (auto simp: Let_def split: prod.splits)
  next
    case Timeout
    with Cons show ?thesis by simp
  next
    case Undecodable
    with Cons show ?thesis by simp
  qed
qed

text \<open>
  C4. A command whose verb is not AUTH, received while \<open>authenticated_user\<close> is \<open>None\<close>, is
  answered \<open>ERROR Authentication required\<close>; the connection stays unauthenticated and the file
  system is the one before.
\<close>

theorem unauthenticated_command_refused:
  assumes "strip data \<noteq> []"
    and "upper (hd (split_maxsplit 2 (strip data))) \<noteq> ''AUTH''"
  shows "sent (handle_command srv None os data) = Some ''ERROR Authentication required''
       \<and> authenticated_user (handle_command srv None os data) = None
       \<and> fs (handle_command srv None os data) = os
       \<and> running (handle_command srv None os data)"
proof -
  from assms(1) have "split_maxsplit 2 (strip data) \<noteq> []" by (rule split_strip_not_Nil)
  then obtain p ps where parts: "split_maxsplit 2 (strip data) = p # ps"
    by (cases "split_maxsplit 2 (strip data)") auto
  with assms(2) have "upper p \<noteq> ''AUTH''" by simp
  then show ?thesis
    by (simp add: handle_command_dispatch [OF parts] respond_def)
qed

theorem unauthenticated_command_refused_witness:
  "strip ''DOWNLOAD notes.txt'' \<noteq> []
   \<and> upper (hd (split_maxsplit 2 (strip ''DOWNLOAD notes.txt''))) \<noteq> ''AUTH''
   \<and> sent (handle_command example_server None example_os ''DOWNLOAD notes.txt'')
       = Some ''ERROR Authentication required''
   \<and> authenticated_user (handle_command example_server None example_os ''DOWNLOAD notes.txt'') = None
   \<and> fs (handle_command example_server None example_os ''DOWNLOAD notes.txt'') = example_os"
proof -
  have 1: "strip ''DOWNLOAD notes.txt'' \<noteq> []" by code_simp
  have 2: "upper (hd (split_maxsplit 2 (strip ''DOWNLOAD notes.txt''))) \<noteq> ''AUTH''" by code_simp
  show ?thesis
    using 1 2 unauthenticated_command_refused [OF 1 2, of example_server example_os] by simp
qed

text \<open>
  C5. An AUTH command with two arguments is answered from the user mapping alone: a user
  that is not in it gets \<open>ERROR User not found\<close>, a user with another secret
  \<open>ERROR Invalid password\<close>, both leaving \<open>authenticated_user\<close> as it was; the right secret
  sets \<open>authenticated_user\<close> to the user and is answered \<open>OK Authenticated\<close>.
\<close>

theorem auth_outcome:
  assumes "split_maxsplit 2 (strip data) = [verb, user, pass]"
    and "upper verb = ''AUTH''"
  shows "(users srv user = None \<longrightarrow>
            sent (handle_command srv au os data) = Some ''ERROR User not found''
          \<and> authenticated_user (handle_command srv au os data) = au)
       \<and> (\<forall>secret. users srv user = Some secret \<and> secret \<noteq> pass \<longrightarrow>
            sent (handle_command srv au os data) = Some ''ERROR Invalid password''
          \<and> authenticated_user (handle_command srv au os data) = au)
       \<and> (users srv user = Some pass \<longrightarrow>
            sent (handle_command srv au os data) = Some ''OK Authenticated''
          \<and> authenticated_user (handle_command srv au os data) = Some user)
       \<and> fs (handle_command srv au os data) = os"
proof -
  have "handle_command srv au os data = handle_auth srv au os [verb, user, pass]"
    using assms(2) by (simp add: handle_command_dispatch [OF assms(1)])
  then show ?thesis
    by (cases "users srv user") (auto simp: handle_auth_result respond_def)
qed

theorem auth_outcome_witness:
  "sent (handle_command example_server None example_os ''AUTH alice secret123'') = Some ''OK Authenticated''
   \<and> authenticated_user (handle_command example_server None example_os ''AUTH alice secret123'') = Some ''alice''
   \<and> sent (handle_command example_server None example_os ''AUTH alice wrongpass'') = Some ''ERROR Invalid password''
   \<and> authenticated_user (handle_command example_server None example_os ''AUTH alice wrongpass'') = None
   \<and> sent (handle_command example_server None example_os ''AUTH bob2 x'') = Some ''ERROR User not found''
   \<and> authenticated_user (handle_command example_server None example_os ''AUTH bob2 x'') = None"
proof -
  have p1: "split_maxsplit 2 (strip ''AUTH alice secret123'') = [''AUTH'', ''alice'', ''secret123'']"
    by code_simp
  have p2: "split_maxsplit 2 (strip ''AUTH alice wrongpass'') = [''AUTH'', ''alice'', ''wrongpass'']"
    by code_simp
  have p3: "split_maxsplit 2 (strip ''AUTH bob2 x'') = [''AUTH'', ''bob2'', ''x'']"
    by code_simp
  have u: "upper ''AUTH'' = ''AUTH''" by code_simp
  have m1: "users example_server ''alice'' = Some ''secret123''"
    by (simp add: example_server_def)
  have m3: "users example_server ''bob2'' = None"
    by (simp add: example_server_def)
  show ?thesis
    using auth_outcome [OF p1 u, of example_server None example_os]
      auth_outcome [OF p2 u, of example_server None example_os]
      auth_outcome [OF p3 u, of example_server None example_os] m1 m3
    by simp
qed

text \<open>
  C10. On an unauthenticated connection a command with an unknown verb is answered
  \<open>ERROR Authentication required\<close>, and \<open>ERROR Unknown command\<close> is sent only when
  \<open>authenticated_user\<close> is set.
\<close>

lemma handle_auth_not_unknown:
  "sent (handle_auth srv au os parts) \<noteq> Some ''ERROR Unknown command''"
  by (simp add: handle_auth_def respond_def Let_def split: option.splits)

theorem gate_before_dispatch:
  "(strip data \<noteq> [] \<and>
      upper (hd (split_maxsplit 2 (strip data))) \<notin>
        set [''AUTH'', ''UPLOAD'', ''DOWNLOAD'', ''DELETE'', ''LIST''] \<longrightarrow>
      sent (handle_command srv None os data) = Some ''ERROR Authentication required'')
   \<and> (sent (handle_command srv au os data) = Some ''ERROR Unknown command'' \<longrightarrow> au \<noteq> None)"
proof (intro conjI impI)
  assume a: "strip data \<noteq> [] \<and>
      upper (hd (split_maxsplit 2 (strip data))) \<notin>
        set [''AUTH'', ''UPLOAD'', ''DOWNLOAD'', ''DELETE'', ''LIST'']"
  then have "split_maxsplit 2 (strip data) \<noteq> []" by (simp add: split_strip_not_Nil)
  then obtain p ps where parts: "split_maxsplit 2 (strip data) = p # ps"
    by (cases "split_maxsplit 2 (strip data)") auto
  with a have "upper p \<noteq> ''AUTH''" by simp
  then show "sent (handle_command srv None os data) = Some ''ERROR Authentication required''"
    by (simp add: handle_command_dispatch [OF parts] respond_def)
next
  assume s: "sent (handle_command srv au os data) = Some ''ERROR Unknown command''"
  show "au \<noteq> None"
  proof
    assume none: "au = None"
    show False
    proof (cases data rule: handle_command_cases [where srv = srv and au = au and os = os])
      case empty
      with s show False by simp
    next
      case (parts p ps)
      show False
        using s none handle_auth_not_unknown [of srv None os "p # ps"]
        by (simp add: handle_command_dispatch [OF parts(2)] respond_def split: if_splits)
    qed
  qed
qed

theorem gate_before_dispatch_witness:
  "sent (handle_command example_server None example_os ''PING now'') = Some ''ERROR Authentication required''
   \<and> sent (handle_command example_server (Some ''alice'') example_os ''PING now'') = Some ''ERROR Unknown command''
   \<and> Some ''alice'' \<noteq> (None :: string option)"
proof -
  have 1: "strip ''PING now'' \<noteq> [] \<and>
      upper (hd (split_maxsplit 2 (strip ''PING now''))) \<notin>
        set [''AUTH'', ''UPLOAD'', ''DOWNLOAD'', ''DELETE'', ''LIST'']"
    by code_simp
  have 2: "sent (handle_command example_server (Some ''alice'') example_os ''PING now'') = Some ''ERROR Unknown command''"
    by code_simp
  show ?thesis
    using 1 2 gate_before_dispatch [of "''PING now''" example_server example_os "Some ''alice''"]
    by simp
qed

text \<open>
  C2, as the code has it. \<open>authenticated_user\<close> changes only in a turn that receives an AUTH
  command naming a user of the mapping with that user's secret, and then it becomes that
  user, whether or not a user was set before; every other turn, a failed AUTH too, leaves it
  as it was. So once set it is never unset, for the rest of the connection.
\<close>

theorem authenticated_user_changes_by_auth_only:
  "(authenticated_user (handle_command srv au os data) = au \<or>
      (\<exists>verb user pass. split_maxsplit 2 (strip data) = [verb, user, pass]
         \<and> upper verb = ''AUTH'' \<and> users srv user = Some pass
         \<and> authenticated_user (handle_command srv au os data) = Some user
         \<and> sent (handle_command srv au os data) = Some ''OK Authenticated''))
   \<and> (au \<noteq> None \<longrightarrow> fst (snd (handle_client srv au os evs)) \<noteq> None)"
  using handle_command_user [of srv au os data] handle_client_stays_authenticated [of au srv os evs]
  by blast

theorem authenticated_user_changes_by_auth_only_witness:
  "authenticated_user (handle_command example_server (Some ''alice'') example_os ''AUTH bob wrong'') = Some ''alice''
   \<and> fst (snd (handle_client example_server (Some ''alice'') example_os
        [Data ''AUTH bob wrong'', Data ''LIST'', Timeout])) \<noteq> None"
proof -
  have 1: "split_maxsplit 2 (strip ''AUTH bob wrong'') = [''AUTH'', ''bob'', ''wrong'']"
    by code_simp
  have 2: "users example_server ''bob'' = Some ''hunter2''"
    by (simp add: example_server_def)
  show ?thesis
    using 1 2
      authenticated_user_changes_by_auth_only [of example_server "Some ''alice''" example_os
        "''AUTH bob wrong''" "[Data ''AUTH bob wrong'', Data ''LIST'', Timeout]"]
    by auto
qed

text \<open>
  C2 as stated fails: a second AUTH that succeeds on a connection already authenticated
  replaces the user.
\<close>

theorem reauth_replaces_user:
  "handle_client example_server None example_os [Data ''AUTH alice secret123'']
     = ([''OK Authenticated''], Some ''alice'', example_os)
   \<and> handle_client example_server None example_os
       [Data ''AUTH alice secret123'', Data ''AUTH bob hunter2'']
     = ([''OK Authenticated'', ''OK Authenticated''], Some ''bob'', example_os)"
  by code_simp

text \<open>
  C6, as the code has it. When \<open>b64decode\<close> raises on the payload of an UPLOAD, the answer
  is \<open>ERROR Upload failed:\<close> with the text of the exception, and the file system is the one
  before. \<open>b64decode\<close> raises on a character that is not ASCII and on data characters that
  do not fill their last group or lack its padding; a character outside the alphabet is
  skipped and does not make it raise.
\<close>

theorem upload_decode_failure:
  assumes "split_maxsplit 2 (strip data) = [verb, filename, payload]"
    and "upper verb = ''UPLOAD''"
    and "b64decode payload = Inl e"
  shows "sent (handle_command srv (Some user) os data)
           = Some (''ERROR Upload failed: '' @ str_exception e)
       \<and> fs (handle_command srv (Some user) os data) = os
       \<and> authenticated_user (handle_command srv (Some user) os data) = Some user"
proof -
  have "upper verb \<noteq> ''AUTH''" using assms(2) by simp
  then have "handle_command srv (Some user) os data
      = handle_upload srv user os [verb, filename, payload]"
    using assms(2) by (simp add: handle_command_dispatch [OF assms(1)])
  then show ?thesis
    using assms(3) by (simp add: handle_upload_def respond_def)
qed

theorem upload_decode_failure_witness:
  "b64decode ''aGk'' = Inl (Binascii_Error Incorrect_padding)
   \<and> sent (handle_command example_server (Some ''alice'') example_os ''UPLOAD g aGk'')
       = Some ''ERROR Upload failed: Incorrect padding''
   \<and> fs (handle_command example_server (Some ''alice'') example_os ''UPLOAD g aGk'') = example_os"
proof -
  have 1: "split_maxsplit 2 (strip ''UPLOAD g aGk'') = [''UPLOAD'', ''g'', ''aGk'']"
    by code_simp
  have 2: "upper ''UPLOAD'' = ''UPLOAD''" by code_simp
  have 3: "b64decode ''aGk'' = Inl (Binascii_Error Incorrect_padding)" by code_simp
  show ?thesis
    using 3 upload_decode_failure [OF 1 2 3, of example_server "''alice''" example_os]
    by (simp add: str_exception_def)
qed

text \<open>
  C6 as stated fails: a payload with a character outside the base64 alphabet is decoded,
  the character skipped, and the file is written.
\<close>

theorem upload_skips_foreign_character:
  "sent (handle_command example_server (Some ''alice'') example_os ''UPLOAD g aG*k='')
     = Some ''OK File uploaded''
   \<and> lookup (fs (handle_command example_server (Some ''alice'') example_os ''UPLOAD g aG*k=''))
       [''srv'', ''storage'', ''alice'', ''g''] = Some (File [104, 105])
   \<and> lookup example_os [''srv'', ''storage'', ''alice'', ''g''] = None"
  by code_simp

section \<open>The client's connection\<close>

lemma map_upt_Suc_shift: "map f [0..<Suc k] = f 0 # map (\<lambda>j. f (Suc j)) [0..<k]"
proof -
  have "[0..<Suc k] = 0 # map Suc [0..<k]"
    by (simp add: upt_conv_Cons map_Suc_upt del: upt_Suc)
  then show ?thesis by (simp add: comp_def del: upt_Suc)
qed

lemma connect_loop_accept:
  assumes "current_node c < length (nodes c)"
    and "a + m < length (nodes c)"
    and "accepts (sock + m) (nodes c ! ((current_node c + m) mod length (nodes c)))"
    and "\<forall>k<m. \<not> accepts (sock + k) (nodes c ! ((current_node c + k) mod length (nodes c)))"
  shows "connect_loop accepts sock a c =
    (Some True, map (\<lambda>k. nodes c ! ((current_node c + k) mod length (nodes c))) [0..<Suc m],
     Suc (sock + m),
     c\<lparr>session := Some (sock + m),
       current_node := (current_node c + m) mod length (nodes c)\<rparr>)"
  using assms
proof (induction m arbitrary: sock a c)
  case 0
  then show ?case
    by (subst connect_loop.simps) simp
next
  case (Suc m)
  let ?n = "length (nodes c)"
  let ?c1 = "c\<lparr>session := Some sock, current_node := (current_node c + 1) mod ?n\<rparr>"
  have n: "0 < ?n" using Suc.prems(1) by linarith
  then have ne: "nodes c \<noteq> []" by simp
  have no: "\<not> accepts sock (nodes c ! current_node c)"
    using Suc.prems(4) [rule_format, of 0] Suc.prems(1) by simp
  have shift: "\<And>k. (Suc (current_node c) mod ?n + k) mod ?n = Suc (current_node c + k) mod ?n"
    by (simp add: mod_add_left_eq)
  have ih: "connect_loop accepts (Suc sock) (Suc a) ?c1 =
    (Some True, map (\<lambda>k. nodes ?c1 ! ((current_node ?c1 + k) mod length (nodes ?c1))) [0..<Suc m],
     Suc (Suc sock + m),
     ?c1\<lparr>session := Some (Suc sock + m),
       current_node := (current_node ?c1 + m) mod length (nodes ?c1)\<rparr>)"
  proof (rule Suc.IH)
    show "current_node ?c1 < length (nodes ?c1)" using n by simp
    show "Suc a + m < length (nodes ?c1)" using Suc.prems(2) by simp
    show "accepts (Suc sock + m)
        (nodes ?c1 ! ((current_node ?c1 + m) mod length (nodes ?c1)))"
      using Suc.prems(3) by (simp add: shift)
    show "\<forall>k<m. \<not> accepts (Suc sock + k)
        (nodes ?c1 ! ((current_node ?c1 + k) mod length (nodes ?c1)))"
    proof (intro allI impI)
      fix k assume "k < m"
      then have "\<not> accepts (sock + Suc k) (nodes c ! ((current_node c + Suc k) mod ?n))"
        using Suc.prems(4) by (simp del: add_Suc_right)
      then show "\<not> accepts (Suc sock + k)
          (nodes ?c1 ! ((current_node ?c1 + k) mod length (nodes ?c1)))"
        by (simp add: shift)
    qed
  qed
  have first: "(current_node c + 0) mod ?n = current_node c"
    using Suc.prems(1) by simp
  show ?case
    apply (subst connect_loop.simps)
    apply (subst map_upt_Suc_shift)
    using Suc.prems(1,2) no ih ne
    apply (simp add: shift del: upt_Suc)
    done
qed

lemma connect_loop_refused:
  assumes "current_node c < length (nodes c)"
    and "a + m = length (nodes c)"
    and "\<forall>k<m. \<not> accepts (sock + k) (nodes c ! ((current_node c + k) mod length (nodes c)))"
  shows "\<exists>c'. connect_loop accepts sock a c =
      (Some False, map (\<lambda>k. nodes c ! ((current_node c + k) mod length (nodes c))) [0..<m],
       sock + m, c')
    \<and> current_node c' = (current_node c + m) mod length (nodes c)
    \<and> nodes c' = nodes c \<and> authenticated c' = authenticated c"
  using assms
proof (induction m arbitrary: sock a c)
  case 0
  then show ?case
    by (subst connect_loop.simps) simp
next
  case (Suc m)
  let ?n = "length (nodes c)"
  let ?c1 = "c\<lparr>session := Some sock, current_node := (current_node c + 1) mod ?n\<rparr>"
  have n: "0 < ?n" using Suc.prems(1) by linarith
  then have ne: "nodes c \<noteq> []" by simp
  have no: "\<not> accepts sock (nodes c ! current_node c)"
    using Suc.prems(3) [rule_format, of 0] Suc.prems(1) by simp
  have shift: "\<And>k. (Suc (current_node c) mod ?n + k) mod ?n = Suc (current_node c + k) mod ?n"
    by (simp add: mod_add_left_eq)
  have "\<exists>c'. connect_loop accepts (Suc sock) (Suc a) ?c1 =
      (Some False,
       map (\<lambda>k. nodes ?c1 ! ((current_node ?c1 + k) mod length (nodes ?c1))) [0..<m],
       Suc sock + m, c')
    \<and> current_node c' = (current_node ?c1 + m) mod length (nodes ?c1)
    \<and> nodes c' = nodes ?c1 \<and> authenticated c' = authenticated ?c1"
  proof (rule Suc.IH)
    show "current_node ?c1 < length (nodes ?c1)" using n by simp
    show "Suc a + m = length (nodes ?c1)" using Suc.prems(2) by simp
    show "\<forall>k<m. \<not> accepts (Suc sock + k)
        (nodes ?c1 ! ((current_node ?c1 + k) mod length (nodes ?c1)))"
    proof (intro allI impI)
      fix k assume "k < m"
      then have "\<not> accepts (sock + Suc k) (nodes c ! ((current_node c + Suc k) mod ?n))"
        using Suc.prems(3) by (simp del: add_Suc_right)
      then show "\<not> accepts (Suc sock + k)
          (nodes ?c1 ! ((current_node ?c1 + k) mod length (nodes ?c1)))"
        by (simp add: shift)
    qed
  qed
  then obtain c' where ih: "connect_loop accepts (Suc sock) (Suc a) ?c1 =
      (Some False,
       map (\<lambda>k. nodes c ! ((current_node c + Suc k) mod ?n)) [0..<m],
       Suc sock + m, c')"
    and c': "current_node c' = (current_node c + Suc m) mod ?n"
      "nodes c' = nodes c" "authenticated c' = authenticated c"
    by (auto simp: shift)
  show ?case
    apply (subst connect_loop.simps)
    apply (subst map_upt_Suc_shift)
    using Suc.prems(1,2) no ih c' ne
    apply (simp del: upt_Suc)
    done
qed

lemma map_nth_rotate:
  assumes "m \<le> length xs"
  shows "map (\<lambda>k. xs ! ((i + k) mod length xs)) [0..<m] = take m (rotate i xs)"
proof (rule nth_equalityI)
  show "length (map (\<lambda>k. xs ! ((i + k) mod length xs)) [0..<m]) = length (take m (rotate i xs))"
    using assms by simp
next
  fix j assume "j < length (map (\<lambda>k. xs ! ((i + k) mod length xs)) [0..<m])"
  then have j: "j < m" by simp
  with assms have "j < length xs" by simp
  then have "rotate i xs ! j = xs ! ((i + j) mod length xs)"
    by (rule nth_rotate)
  with j show "map (\<lambda>k. xs ! ((i + k) mod length xs)) [0..<m] ! j = take m (rotate i xs) ! j"
    by simp
qed

text \<open>
  C8. With a list of endpoints that is not empty, \<open>_connect_to_next_node\<close> tries the
  endpoints from \<open>current_node\<close> on, in the order of the list and wrapping round. When the
  attempt number \<open>m\<close> is the first that is accepted, it returns true after those \<open>m + 1\<close>
  attempts and \<open>current_node\<close> is the index of that endpoint; when none of the
  \<open>length nodes\<close> attempts is accepted, it returns false, having tried every endpoint once.
\<close>

theorem connect_round_robin:
  assumes "nodes c \<noteq> []" and "current_node c < length (nodes c)"
  shows "(\<forall>m < length (nodes c).
            accepts (sock + m) (nodes c ! ((current_node c + m) mod length (nodes c)))
          \<and> (\<forall>k<m. \<not> accepts (sock + k) (nodes c ! ((current_node c + k) mod length (nodes c))))
          \<longrightarrow> (case connect_to_next_node accepts sock c of (r, tried, sock', c') \<Rightarrow>
                 r = Some True \<and> tried = take (Suc m) (rotate (current_node c) (nodes c))
               \<and> current_node c' = (current_node c + m) mod length (nodes c)
               \<and> session c' = Some (sock + m)))
       \<and> ((\<forall>k < length (nodes c).
              \<not> accepts (sock + k) (nodes c ! ((current_node c + k) mod length (nodes c))))
          \<longrightarrow> (case connect_to_next_node accepts sock c of (r, tried, sock', c') \<Rightarrow>
                 r = Some False \<and> tried = rotate (current_node c) (nodes c)
               \<and> current_node c' = current_node c))"
proof -
  define c0 where "c0 = (if session c \<noteq> None then c\<lparr>session := None, authenticated := False\<rparr> else c)"
  have c0: "nodes c0 = nodes c" "current_node c0 = current_node c"
    by (simp_all add: c0_def)
  have run: "connect_to_next_node accepts sock c = connect_loop accepts sock 0 c0"
    by (simp add: connect_to_next_node_def c0_def)
  let ?n = "length (nodes c)"
  let ?i = "current_node c"
  show ?thesis
  proof (intro conjI allI impI)
    fix m
    assume m: "m < ?n"
      and acc: "accepts (sock + m) (nodes c ! ((?i + m) mod ?n))
        \<and> (\<forall>k<m. \<not> accepts (sock + k) (nodes c ! ((?i + k) mod ?n)))"
    have "connect_loop accepts sock 0 c0 =
      (Some True,
       map (\<lambda>k. nodes c0 ! ((current_node c0 + k) mod length (nodes c0))) [0..<Suc m],
       Suc (sock + m),
       c0\<lparr>session := Some (sock + m),
         current_node := (current_node c0 + m) mod length (nodes c0)\<rparr>)"
    proof (rule connect_loop_accept)
      show "current_node c0 < length (nodes c0)" using assms(2) by (simp add: c0)
      show "0 + m < length (nodes c0)" using m by (simp add: c0)
      show "accepts (sock + m) (nodes c0 ! ((current_node c0 + m) mod length (nodes c0)))"
        using acc by (simp add: c0)
      show "\<forall>k<m. \<not> accepts (sock + k)
          (nodes c0 ! ((current_node c0 + k) mod length (nodes c0)))"
        using acc by (simp add: c0)
    qed
    moreover have "map (\<lambda>k. nodes c ! ((?i + k) mod ?n)) [0..<Suc m]
        = take (Suc m) (rotate ?i (nodes c))"
      by (rule map_nth_rotate) (use m in simp)
    ultimately have "connect_to_next_node accepts sock c =
      (Some True, take (Suc m) (rotate ?i (nodes c)), Suc (sock + m),
       c0\<lparr>session := Some (sock + m), current_node := (?i + m) mod ?n\<rparr>)"
      by (simp only: run c0)
    then show "case connect_to_next_node accepts sock c of (r, tried, sock', c') \<Rightarrow>
        r = Some True \<and> tried = take (Suc m) (rotate ?i (nodes c))
        \<and> current_node c' = (?i + m) mod ?n
        \<and> session c' = Some (sock + m)"
      by simp
  next
    assume none: "\<forall>k < ?n. \<not> accepts (sock + k) (nodes c ! ((?i + k) mod ?n))"
    have "\<exists>c'. connect_loop accepts sock 0 c0 =
        (Some False,
         map (\<lambda>k. nodes c0 ! ((current_node c0 + k) mod length (nodes c0))) [0..<?n],
         sock + ?n, c')
      \<and> current_node c' = (current_node c0 + ?n) mod length (nodes c0)
      \<and> nodes c' = nodes c0 \<and> authenticated c' = authenticated c0"
    proof (rule connect_loop_refused)
      show "current_node c0 < length (nodes c0)" using assms(2) by (simp add: c0)
      show "0 + ?n = length (nodes c0)" by (simp add: c0)
      show "\<forall>k< ?n. \<not> accepts (sock + k)
          (nodes c0 ! ((current_node c0 + k) mod length (nodes c0)))"
        using none by (simp add: c0)
    qed
    then obtain c' where loop: "connect_loop accepts sock 0 c0 =
        (Some False, map (\<lambda>k. nodes c ! ((?i + k) mod ?n)) [0..<?n], sock + ?n, c')"
      and c': "current_node c' = (?i + ?n) mod ?n"
      by (auto simp only: c0)
    have "map (\<lambda>k. nodes c ! ((?i + k) mod ?n)) [0..<?n] = take ?n (rotate ?i (nodes c))"
      by (rule map_nth_rotate) simp
    then have tried: "map (\<lambda>k. nodes c ! ((?i + k) mod ?n)) [0..<?n] = rotate ?i (nodes c)"
      by simp
    from c' assms(2) have "current_node c' = ?i" by simp
    with loop tried show "case connect_to_next_node accepts sock c of (r, tried, sock', c') \<Rightarrow>
        r = Some False \<and> tried = rotate ?i (nodes c) \<and> current_node c' = ?i"
      by (simp only: run) simp
  qed
qed

theorem connect_round_robin_witness:
  "connect_to_next_node example_accepts 0 (init_client example_nodes)
     = (Some True, [(''deadE1'', 8080), (''liveE2'', 8081)], 2,
        \<lparr>nodes = example_nodes, current_node = 1, session = Some 1, authenticated = False\<rparr>)
   \<and> fst (connect_to_next_node (\<lambda>s e. False) 0 (init_client example_nodes)) = Some False
   \<and> fst (snd (connect_to_next_node (\<lambda>s e. False) 0 (init_client example_nodes)))
       = rotate 0 example_nodes
   \<and> current_node (snd (snd (snd (connect_to_next_node (\<lambda>s e. False) 0 (init_client example_nodes))))) = 0"
proof -
  let ?c = "init_client example_nodes"
  have h1: "nodes ?c \<noteq> []" by (simp add: init_client_def example_nodes_def)
  have h2: "current_node ?c < length (nodes ?c)"
    by (simp add: init_client_def example_nodes_def)
  have e: "connect_to_next_node example_accepts 0 ?c
     = (Some True, [(''deadE1'', 8080), (''liveE2'', 8081)], 2,
        \<lparr>nodes = example_nodes, current_node = 1, session = Some 1, authenticated = False\<rparr>)"
    by code_simp
  have "fst (connect_to_next_node (\<lambda>s e. False) 0 ?c) = Some False
    \<and> fst (snd (connect_to_next_node (\<lambda>s e. False) 0 ?c)) = rotate 0 example_nodes
    \<and> current_node (snd (snd (snd (connect_to_next_node (\<lambda>s e. False) 0 ?c)))) = 0"
    using connect_round_robin [OF h1 h2, of "\<lambda>s e. False" 0]
    by (auto simp: init_client_def split: prod.splits)
  with e show ?thesis by simp
qed

text \<open>
  C3 on the code. After \<open>authenticate\<close> succeeded on socket 0, a command whose \<open>send\<close>
  raises leaves \<open>session = None\<close> and \<open>authenticated = True\<close>; the next command connects a
  new socket, number 1, and \<open>authenticated\<close> is still true, although \<open>authenticate\<close> never
  ran on that socket. The reset in \<open>_connect_to_next_node\<close> is under \<open>if self.session\<close>, and
  the method is only called when \<open>session\<close> is \<open>None\<close>.
\<close>

definition after_login :: FileClient where
  "after_login =
     snd (snd (authenticate (\<lambda>s e. True) 0 (init_client [(''localhost'', 8080)])
       ''alice'' ''secret123'' (Recv ''OK Authenticated'')))"

definition after_send_failure :: FileClient where
  "after_send_failure = snd (snd (delete_file (\<lambda>s e. True) 1 after_login ''f'' Send_raises))"

definition after_reconnect :: FileClient where
  "after_reconnect =
     snd (snd (delete_file (\<lambda>s e. True) 1 after_send_failure ''f''
       (Recv ''ERROR Authentication required'')))"

theorem authenticated_survives_reconnect:
  "after_login =
     \<lparr>nodes = [(''localhost'', 8080)], current_node = 0, session = Some 0, authenticated = True\<rparr>
   \<and> after_send_failure =
     \<lparr>nodes = [(''localhost'', 8080)], current_node = 0, session = None, authenticated = True\<rparr>
   \<and> after_reconnect =
     \<lparr>nodes = [(''localhost'', 8080)], current_node = 0, session = Some 1, authenticated = True\<rparr>"
  by code_simp

section \<open>The store under the server's commands\<close>

subsection \<open>Looking up after a change\<close>

lemma lookup_update:
  "p \<noteq> [] \<Longrightarrow>
   lookup (os\<lparr>entries := AList.update p v (entries os)\<rparr>) q
     = (if q = p then Some v else lookup os q)"
  by (simp add: lookup_def AList.update_conv')

lemma lookup_delete:
  "p \<noteq> [] \<Longrightarrow>
   lookup (os\<lparr>entries := AList.delete p (entries os)\<rparr>) q
     = (if q = p then None else lookup os q)"
  by (simp add: lookup_def AList.delete_conv')

lemma lookup_root: "lookup os [] = Some Dir"
  by (simp add: lookup_def)

subsection \<open>Names and their lengths\<close>

lemma fs_len_append: "fs_len (a @ b) = fs_len a + fs_len b"
  by (simp add: fs_len_def)

lemma fs_len_Nil: "fs_len [] = 0"
  by (simp add: fs_len_def)

lemma embedded_null_path_join:
  "hd f \<noteq> CHR ''/'' \<Longrightarrow> embedded_null (path_join d f) = (embedded_null d \<or> embedded_null f)"
  by (auto simp: path_join_def embedded_null_def)

lemma path_join_Nil: "hd f \<noteq> CHR ''/'' \<Longrightarrow> path_join [] f = f"
  by (simp add: path_join_def)

lemma path_join_not_Nil: "f \<noteq> [] \<Longrightarrow> path_join d f \<noteq> []"
  by (simp add: path_join_def)

lemma last_path_join: "f \<noteq> [] \<Longrightarrow> last (path_join d f) = last f"
  by (simp add: path_join_def)

lemma plain_name_hd: "plain_name s \<Longrightarrow> s \<noteq> [] \<and> hd s \<noteq> CHR ''/''"
  by (cases s) (auto simp: plain_name_def token_def)

lemma plain_name_last: "plain_name s \<Longrightarrow> last s \<noteq> CHR ''/''"
proof -
  assume p: "plain_name s"
  then have "s \<noteq> []" by (simp add: plain_name_def token_def)
  then have "last s \<in> set s" by simp
  with p show ?thesis by (auto simp: plain_name_def)
qed

subsection \<open>Resolving names\<close>

lemma walk_needs_dir: "walk os p (c # cs) = Inr q \<Longrightarrow> lookup os p = Some Dir"
  by (auto split: option.splits node.splits)

lemma walk_Cons_Inr:
  assumes "walk os p (c # cs) = Inr q"
  shows "lookup os p = Some Dir" and "\<not> NAME_MAX < fs_len c" and "walk os (enter p c) cs = Inr q"
proof -
  show d: "lookup os p = Some Dir" using assms by (rule walk_needs_dir)
  from assms d show "\<not> NAME_MAX < fs_len c" by (auto split: if_splits)
  from assms d show "walk os (enter p c) cs = Inr q" by (auto split: if_splits)
qed

lemma walk_mono:
  assumes "\<And>r. lookup os r = Some Dir \<Longrightarrow> lookup os' r = Some Dir"
  shows "walk os p cs = Inr q \<Longrightarrow> walk os' p cs = Inr q"
proof (induction cs arbitrary: p)
  case Nil
  then show ?case by simp
next
  case (Cons c cs)
  from Cons.prems have d: "lookup os p = Some Dir" and n: "\<not> NAME_MAX < fs_len c"
    and w: "walk os (enter p c) cs = Inr q"
    by (rule walk_Cons_Inr)+
  from d have d': "lookup os' p = Some Dir" by (rule assms)
  from w have "walk os' (enter p c) cs = Inr q" by (rule Cons.IH)
  with d' n show ?case by simp
qed

lemma resolve_Inr:
  assumes "resolve os name = Inr q"
  shows "name \<noteq> []" and "fs_len name < PATH_MAX"
    and "walk os (if hd name = CHR ''/'' then [] else cwd os) (split_slash name) = Inr q"
proof -
  show 1: "name \<noteq> []" using assms by (auto simp: resolve_def)
  show 2: "fs_len name < PATH_MAX" using assms 1 by (auto simp: resolve_def split: if_splits)
  from assms 1 2 show "walk os (if hd name = CHR ''/'' then [] else cwd os) (split_slash name) = Inr q"
    by (simp add: resolve_def)
qed

lemma resolve_walk:
  assumes "name \<noteq> []" and "fs_len name < PATH_MAX"
  shows "resolve os name = walk os (if hd name = CHR ''/'' then [] else cwd os) (split_slash name)"
  using assms by (simp add: resolve_def)

lemma resolve_mono:
  assumes "\<And>r. lookup os r = Some Dir \<Longrightarrow> lookup os' r = Some Dir"
    and "cwd os' = cwd os"
    and "resolve os name = Inr q"
  shows "resolve os' name = Inr q"
proof -
  from assms(3) have ne: "name \<noteq> []" and len: "fs_len name < PATH_MAX"
    and w: "walk os (if hd name = CHR ''/'' then [] else cwd os) (split_slash name) = Inr q"
    by (rule resolve_Inr)+
  from w have "walk os' (if hd name = CHR ''/'' then [] else cwd os) (split_slash name) = Inr q"
    using assms(1) by (rule walk_mono [rotated])
  then show ?thesis
    by (simp only: resolve_walk [OF ne len] assms(2))
qed

lemma fs_path_Inr:
  "fs_path os name = Inr p \<longleftrightarrow> \<not> embedded_null name \<and> resolve os name = Inr p"
  by (auto simp: fs_path_def split: sum.splits)

lemma fs_path_mono:
  assumes "\<And>r. lookup os r = Some Dir \<Longrightarrow> lookup os' r = Some Dir"
    and "cwd os' = cwd os"
    and "fs_path os name = Inr q"
  shows "fs_path os' name = Inr q"
proof -
  from assms(3) have n: "\<not> embedded_null name" and r: "resolve os name = Inr q"
    by (simp_all add: fs_path_Inr)
  from assms(1,2) r have "resolve os' name = Inr q" by (rule resolve_mono)
  with n show ?thesis by (simp add: fs_path_Inr)
qed

lemma walk_append:
  "walk os p (xs @ ys) = (case walk os p xs of Inl e \<Rightarrow> Inl e | Inr q \<Rightarrow> walk os q ys)"
  by (induction xs arbitrary: p) (simp_all split: option.splits node.splits)

lemma split_slash_not_Nil: "split_slash s \<noteq> []"
  by (induction s) (simp_all split: list.splits)

lemma split_slash_append:
  "split_slash (a @ CHR ''/'' # b) = split_slash a @ split_slash b"
proof (induction a)
  case Nil
  show ?case by simp
next
  case (Cons c a)
  obtain w ws where "split_slash a = w # ws"
    using split_slash_not_Nil [of a] by (cases "split_slash a") auto
  with Cons show ?case by simp
qed

lemma split_slash_plain: "CHR ''/'' \<notin> set s \<Longrightarrow> split_slash s = [s]"
  by (induction s) auto

lemma walk_empty_component:
  "(case walk os p [[]] of Inl e \<Rightarrow> Inl e | Inr p' \<Rightarrow> walk os p' (c # cs)) = walk os p (c # cs)"
  by (simp add: enter_def fs_len_Nil split: option.splits node.splits)

lemma walk_empty_Inr: "walk os p [[]] = Inr q \<Longrightarrow> q = p"
  by (auto simp: enter_def split: option.splits node.splits if_splits)

lemma resolve_path_join:
  assumes "d \<noteq> []" and "hd f \<noteq> CHR ''/''" and "fs_len (path_join d f) < PATH_MAX"
  shows "resolve os (path_join d f) =
    (case resolve os d of Inl e \<Rightarrow> Inl e | Inr p \<Rightarrow> walk os p (split_slash f))"
proof -
  let ?start = "if hd d = CHR ''/'' then [] else cwd os"
  obtain c cs where f: "split_slash f = c # cs"
    using split_slash_not_Nil [of f] by (cases "split_slash f") auto
  show ?thesis
  proof (cases "last d = CHR ''/''")
    case False
    with assms have j: "path_join d f = d @ CHR ''/'' # f"
      by (simp add: path_join_def)
    have l: "fs_len (d @ CHR ''/'' # f) < PATH_MAX" using assms(3) by (simp only: j)
    then have ld: "fs_len d < PATH_MAX" by (simp add: fs_len_append)
    have s: "(if hd (d @ CHR ''/'' # f) = CHR ''/'' then [] else cwd os) = ?start"
      using assms(1) by simp
    have "resolve os (d @ CHR ''/'' # f) = walk os ?start (split_slash (d @ CHR ''/'' # f))"
      using resolve_walk [OF _ l, of os] s by simp
    also have "\<dots> = walk os ?start (split_slash d @ split_slash f)"
      by (simp only: split_slash_append)
    also have "\<dots> = (case walk os ?start (split_slash d) of
        Inl e \<Rightarrow> Inl e | Inr p \<Rightarrow> walk os p (split_slash f))"
      by (rule walk_append)
    finally show ?thesis
      by (simp only: j resolve_walk [OF assms(1) ld])
  next
    case True
    with assms(1) obtain d' where d: "d = d' @ [CHR ''/'']"
      by (metis append_butlast_last_id)
    have j: "path_join d f = d' @ CHR ''/'' # f"
      using assms(2) by (simp add: path_join_def d)
    have l: "fs_len (d' @ CHR ''/'' # f) < PATH_MAX" using assms(3) by (simp only: j)
    then have ld: "fs_len d < PATH_MAX" by (simp add: d fs_len_append fs_len_def)
    have s: "(if hd (d' @ CHR ''/'' # f) = CHR ''/'' then [] else cwd os) = ?start"
      by (cases d') (simp_all add: d)
    have "resolve os (d' @ CHR ''/'' # f) = walk os ?start (split_slash (d' @ CHR ''/'' # f))"
      using resolve_walk [OF _ l, of os] s by simp
    also have "\<dots> = walk os ?start (split_slash d' @ split_slash f)"
      by (simp only: split_slash_append)
    also have "\<dots> = (case walk os ?start (split_slash d') of
        Inl e \<Rightarrow> Inl e | Inr p \<Rightarrow> walk os p (c # cs))"
      by (simp only: walk_append f)
    finally have lhs: "resolve os (path_join d f) = (case walk os ?start (split_slash d') of
        Inl e \<Rightarrow> Inl e | Inr p \<Rightarrow> walk os p (c # cs))"
      by (simp only: j)
    have "split_slash d = split_slash d' @ [[]]"
      using split_slash_append [of d' "[]"] by (simp add: d)
    then have "resolve os d = walk os ?start (split_slash d' @ [[]])"
      by (simp only: resolve_walk [OF assms(1) ld])
    also have "\<dots> = (case walk os ?start (split_slash d') of
        Inl e \<Rightarrow> Inl e | Inr p \<Rightarrow> walk os p [[]])"
      by (rule walk_append)
    finally have rd: "resolve os d = (case walk os ?start (split_slash d') of
        Inl e \<Rightarrow> Inl e | Inr p \<Rightarrow> walk os p [[]])" .
    show ?thesis
    proof (cases "walk os ?start (split_slash d')")
      case (Inl e)
      with lhs rd show ?thesis by simp
    next
      case (Inr p)
      have l: "resolve os (path_join d f) = walk os p (c # cs)"
        using lhs by (simp only: Inr sum.case)
      have r: "resolve os d = walk os p [[]]"
        using rd by (simp only: Inr sum.case)
      show ?thesis
        by (simp only: l r f walk_empty_component)
    qed
  qed
qed

lemma path_join_resolved:
  assumes "d \<noteq> []" and "hd f \<noteq> CHR ''/''" and "resolve os (path_join d f) = Inr q"
  obtains p where "resolve os d = Inr p" and "lookup os p = Some Dir"
    and "walk os p (split_slash f) = Inr q"
proof -
  have len: "fs_len (path_join d f) < PATH_MAX" using assms(3) by (rule resolve_Inr)
  from assms(3) resolve_path_join [OF assms(1,2) len, of os]
  obtain p where p: "resolve os d = Inr p" and w: "walk os p (split_slash f) = Inr q"
    by (cases "resolve os d") auto
  obtain c cs where "split_slash f = c # cs"
    using split_slash_not_Nil [of f] by (cases "split_slash f") auto
  with w have "walk os p (c # cs) = Inr q" by (simp only:)
  then have dir: "lookup os p = Some Dir" by (rule walk_needs_dir)
  from p dir w show ?thesis by (rule that)
qed

lemma str_exception_ValueError: "str_exception (ValueError msg) = msg"
  by (simp add: str_exception_def)

subsection \<open>A plain name in a directory\<close>

lemma walk_plain:
  assumes "plain_name v"
  shows "walk os p [v] =
    (case lookup os p of
       None \<Rightarrow> Inl ENOENT
     | Some (File content) \<Rightarrow> Inl ENOTDIR
     | Some Dir \<Rightarrow> if NAME_MAX < fs_len v then Inl ENAMETOOLONG else Inr (p @ [v]))"
  using assms by (simp add: plain_name_def token_def enter_def split: option.splits node.splits)

lemma walk_plain_Inr:
  assumes "plain_name v" and "walk os p [v] = Inr q"
  shows "q = p @ [v]" and "lookup os p = Some Dir" and "\<not> NAME_MAX < fs_len v"
proof -
  show d: "lookup os p = Some Dir" using assms(2) by (rule walk_needs_dir)
  show n: "\<not> NAME_MAX < fs_len v" using assms(2) by (rule walk_Cons_Inr)
  from assms(2) show "q = p @ [v]"
    by (simp only: walk_plain [OF assms(1)] d n option.case node.case if_False sum.inject)
qed

lemma resolve_in_dir:
  assumes "plain_name v" and "resolve os d = Inr p" and "fs_len (path_join d v) < PATH_MAX"
  shows "resolve os (path_join d v) = walk os p [v]"
proof -
  from assms(2) have "d \<noteq> []" by (rule resolve_Inr)
  then have "resolve os (path_join d v) =
      (case resolve os d of Inl e \<Rightarrow> Inl e | Inr p \<Rightarrow> walk os p (split_slash v))"
    using plain_name_hd [OF assms(1)] assms(3) by (intro resolve_path_join) simp_all
  moreover have "split_slash v = [v]"
    using assms(1) by (intro split_slash_plain) (simp add: plain_name_def)
  ultimately show ?thesis
    by (simp only: assms(2) sum.case)
qed

text \<open>
  What a plain name stands for in a directory that has been reached: the entry of that name,
  when the directory is one and the name is not too long.
\<close>

lemma fs_path_in_dir:
  assumes "plain_name v" and "fs_path os d = Inr p"
  shows "fs_path os (path_join d v) =
    (if embedded_null v then Inl (ValueError ''embedded null byte'')
     else if PATH_MAX \<le> fs_len (path_join d v) then Inl (OSError ENAMETOOLONG (path_join d v))
     else case lookup os p of
       None \<Rightarrow> Inl (OSError ENOENT (path_join d v))
     | Some (File content) \<Rightarrow> Inl (OSError ENOTDIR (path_join d v))
     | Some Dir \<Rightarrow>
         if NAME_MAX < fs_len v then Inl (OSError ENAMETOOLONG (path_join d v))
         else Inr (p @ [v]))"
proof -
  from assms(2) have n: "\<not> embedded_null d" and r: "resolve os d = Inr p"
    by (simp_all add: fs_path_Inr)
  have hd: "hd v \<noteq> CHR ''/''" and ne: "v \<noteq> []" using plain_name_hd [OF assms(1)] by simp_all
  have null: "embedded_null (path_join d v) = embedded_null v"
    using n by (simp add: embedded_null_path_join [OF hd])
  show ?thesis
  proof (cases "embedded_null v")
    case True
    then show ?thesis by (simp add: fs_path_def null)
  next
    case False
    show ?thesis
    proof (cases "PATH_MAX \<le> fs_len (path_join d v)")
      case True
      then show ?thesis
        using False by (simp add: fs_path_def null resolve_def path_join_not_Nil [OF ne])
    next
      case long: False
      then have "fs_len (path_join d v) < PATH_MAX" by simp
      with assms(1) r have "resolve os (path_join d v) = walk os p [v]"
        by (rule resolve_in_dir)
      then have "resolve os (path_join d v) =
        (case lookup os p of
           None \<Rightarrow> Inl ENOENT
         | Some (File content) \<Rightarrow> Inl ENOTDIR
         | Some Dir \<Rightarrow> if NAME_MAX < fs_len v then Inl ENAMETOOLONG else Inr (p @ [v]))"
        by (simp only: walk_plain [OF assms(1)])
      then show ?thesis
        using False long
        by (simp add: fs_path_def null split: option.splits node.splits)
    qed
  qed
qed

lemma user_dir_base:
  assumes "plain_name u" and "resolve os (path_join sd u) = Inr du"
  shows "(if sd = [] then Inr (cwd os) else resolve os sd) = Inr (butlast du)"
    and "du = butlast du @ [u]" and "lookup os (butlast du) = Some Dir"
proof -
  have hd: "hd u \<noteq> CHR ''/''" and ne: "u \<noteq> []" using plain_name_hd [OF assms(1)] by simp_all
  have "\<exists>d. (if sd = [] then Inr (cwd os) else resolve os sd) = Inr d \<and> du = d @ [u]
      \<and> lookup os d = Some Dir"
  proof (cases "sd = []")
    case True
    have s: "split_slash u = [u]"
      using assms(1) by (intro split_slash_plain) (simp add: plain_name_def)
    from assms(2) have "resolve os u = Inr du" by (simp add: True path_join_Nil [OF hd])
    then have "walk os (if hd u = CHR ''/'' then [] else cwd os) (split_slash u) = Inr du"
      by (rule resolve_Inr)
    then have w: "walk os (cwd os) [u] = Inr du" using hd by (simp only: s if_False)
    from assms(1) w have "du = cwd os @ [u]" and "lookup os (cwd os) = Some Dir"
      by (rule walk_plain_Inr)+
    with True show ?thesis by simp
  next
    case False
    from False hd assms(2) obtain p where p: "resolve os sd = Inr p" "lookup os p = Some Dir"
      and w: "walk os p (split_slash u) = Inr du"
      by (rule path_join_resolved)
    have s: "split_slash u = [u]"
      using assms(1) by (intro split_slash_plain) (simp add: plain_name_def)
    from w have w': "walk os p [u] = Inr du" by (simp only: s)
    from assms(1) w' have "du = p @ [u]" by (rule walk_plain_Inr)
    with False p show ?thesis by simp
  qed
  then obtain d where d: "(if sd = [] then Inr (cwd os) else resolve os sd) = Inr d"
    "du = d @ [u]" "lookup os d = Some Dir"
    by blast
  from d(2) have b: "butlast du = d" by simp
  from d(1) b show "(if sd = [] then Inr (cwd os) else resolve os sd) = Inr (butlast du)"
    by simp
  from d(2) show "du = butlast du @ [u]" by simp
  from d(3) b show "lookup os (butlast du) = Some Dir" by simp
qed

subsection \<open>Making the user's directory\<close>

lemma takeWhile_eq_replicate:
  "takeWhile (\<lambda>c. c = a) xs = replicate (length (takeWhile (\<lambda>c. c = a) xs)) a"
  by (induction xs) simp_all

lemma rstrip_slash_decomp: "\<exists>k. s = rstrip_slash s @ replicate k (CHR ''/'')"
proof -
  let ?t = "takeWhile (\<lambda>c. c = CHR ''/'') (rev s)"
  let ?d = "dropWhile (\<lambda>c. c = CHR ''/'') (rev s)"
  have "rev (?t @ ?d) = rev ?d @ rev ?t" by (rule rev_append)
  moreover have "?t @ ?d = rev s" by (rule takeWhile_dropWhile_id)
  ultimately have "rev (rev s) = rev ?d @ rev ?t" by (simp only:)
  then have "s = rev ?d @ rev ?t" by (simp only: rev_rev_ident)
  moreover have "rev ?t = replicate (length ?t) (CHR ''/'')"
    using takeWhile_eq_replicate [of "CHR ''/''" "rev s"] by (metis rev_replicate)
  ultimately have "s = rstrip_slash s @ replicate (length ?t) (CHR ''/'')"
    by (simp add: rstrip_slash_def)
  then show ?thesis ..
qed

lemma rstrip_slash_id:
  assumes "s \<noteq> []" and "last s \<noteq> CHR ''/''"
  shows "rstrip_slash s = s"
proof -
  from assms(1) have r: "rev s = last s # rev (butlast s)"
    by (metis append_butlast_last_id rev.simps(2) rev_append rev_rev_ident rev_singleton_conv append_Cons append_Nil)
  have "dropWhile (\<lambda>c. c = CHR ''/'') (rev s) = rev s"
    unfolding r using assms(2) by simp
  then show ?thesis by (simp add: rstrip_slash_def)
qed

lemma set_rstrip_slash: "set (rstrip_slash s) \<subseteq> set s"
proof -
  have "set (dropWhile (\<lambda>c. c = CHR ''/'') (rev s)) \<subseteq> set (rev s)"
    by (auto dest: set_dropWhileD)
  then show ?thesis by (simp add: rstrip_slash_def)
qed

lemma resolve_drop_slash:
  assumes "x \<noteq> []" and "resolve os (x @ [CHR ''/'']) = Inr d"
  shows "resolve os x = Inr d"
proof -
  let ?start = "if hd x = CHR ''/'' then [] else cwd os"
  from assms(2) have l: "fs_len (x @ [CHR ''/'']) < PATH_MAX"
    and w: "walk os (if hd (x @ [CHR ''/'']) = CHR ''/'' then [] else cwd os)
        (split_slash (x @ [CHR ''/''])) = Inr d"
    by (rule resolve_Inr)+
  from l have lx: "fs_len x < PATH_MAX" by (simp add: fs_len_append)
  have "split_slash (x @ [CHR ''/'']) = split_slash x @ [[]]"
    using split_slash_append [of x "[]"] by simp
  with w assms(1) have "walk os ?start (split_slash x @ [[]]) = Inr d" by simp
  then have c: "(case walk os ?start (split_slash x) of
      Inl e \<Rightarrow> Inl e | Inr q \<Rightarrow> walk os q [[]]) = Inr d"
    by (simp only: walk_append)
  then obtain q where q: "walk os ?start (split_slash x) = Inr q" and e: "walk os q [[]] = Inr d"
    by (cases "walk os ?start (split_slash x)") simp_all
  from e have "d = q" by (rule walk_empty_Inr)
  with q show ?thesis by (simp only: resolve_walk [OF assms(1) lx])
qed

lemma resolve_strip_slashes:
  "x \<noteq> [] \<Longrightarrow> resolve os (x @ replicate k (CHR ''/'')) = Inr d \<Longrightarrow> resolve os x = Inr d"
proof (induction k)
  case 0
  then show ?case by simp
next
  case (Suc k)
  have "x @ replicate (Suc k) (CHR ''/'') = (x @ replicate k (CHR ''/'')) @ [CHR ''/'']"
    by (simp add: replicate_append_same)
  with Suc.prems(2) have "resolve os ((x @ replicate k (CHR ''/'')) @ [CHR ''/'']) = Inr d"
    by (simp only:)
  moreover have "x @ replicate k (CHR ''/'') \<noteq> []" using Suc.prems(1) by simp
  ultimately have "resolve os (x @ replicate k (CHR ''/'')) = Inr d"
    by (rule resolve_drop_slash [rotated])
  with Suc.prems(1) show ?case by (rule Suc.IH)
qed

lemma resolve_rstrip:
  assumes "resolve os s = Inr d" and "rstrip_slash s \<noteq> []"
  shows "resolve os (rstrip_slash s) = Inr d"
proof -
  obtain k where k: "s = rstrip_slash s @ replicate k (CHR ''/'')"
    using rstrip_slash_decomp [of s] ..
  with assms(1) have "resolve os (rstrip_slash s @ replicate k (CHR ''/'')) = Inr d"
    by (simp only:)
  with assms(2) show ?thesis by (rule resolve_strip_slashes)
qed

text \<open>\<open>os.path.split\<close> of the user's directory: the storage directory and the user's name.\<close>

lemma posix_split_path_join:
  assumes "CHR ''/'' \<notin> set u" and "u \<noteq> []"
  shows "posix_split (path_join sd u) =
    (if list_all (\<lambda>c. c = CHR ''/'') sd then sd else rstrip_slash sd, u)"
proof -
  let ?P = "\<lambda>c. c \<noteq> CHR ''/''"
  from assms have hd: "hd u \<noteq> CHR ''/''" by (cases u) auto
  have all: "\<And>x. x \<in> set (rev u) \<Longrightarrow> ?P x" using assms(1) by auto
  have parts: "\<And>pre. pre = [] \<or> last pre = CHR ''/'' \<Longrightarrow>
      takeWhile ?P (rev (pre @ u)) = rev u \<and> dropWhile ?P (rev (pre @ u)) = rev pre"
  proof -
    fix pre :: string
    assume "pre = [] \<or> last pre = CHR ''/''"
    then have t: "takeWhile ?P (rev pre) = []" and d: "dropWhile ?P (rev pre) = rev pre"
      by (cases pre rule: rev_cases; simp)+
    have "takeWhile ?P (rev u @ rev pre) = rev u @ takeWhile ?P (rev pre)"
      using all by (rule takeWhile_append2)
    moreover have "dropWhile ?P (rev u @ rev pre) = dropWhile ?P (rev pre)"
      using all by (rule dropWhile_append2)
    ultimately show "takeWhile ?P (rev (pre @ u)) = rev u \<and> dropWhile ?P (rev (pre @ u)) = rev pre"
      by (simp add: t d)
  qed
  show ?thesis
  proof (cases "sd = [] \<or> last sd = CHR ''/''")
    case True
    then have j: "path_join sd u = sd @ u" using hd by (auto simp: path_join_def)
    from parts [OF True] show ?thesis
      by (simp add: j posix_split_def Let_def rstrip_slash_def)
  next
    case False
    then have sd: "sd \<noteq> []" "last sd \<noteq> CHR ''/''" by simp_all
    then have j: "path_join sd u = (sd @ [CHR ''/'']) @ u" using hd by (simp add: path_join_def)
    have pre: "sd @ [CHR ''/''] = [] \<or> last (sd @ [CHR ''/'']) = CHR ''/''" by simp
    from sd have "last sd \<in> set sd" by simp
    with sd(2) have na: "\<not> list_all (\<lambda>c. c = CHR ''/'') sd" by (auto simp: list_all_iff)
    have "rstrip_slash (sd @ [CHR ''/'']) = rstrip_slash sd"
      by (simp add: rstrip_slash_def)
    with parts [OF pre] na show ?thesis
      by (simp only: j posix_split_def Let_def rev_rev_ident list_all_append) simp
  qed
qed

lemma makedirs_empty: "makedirs os [] = (Some (OSError ENOENT []), os)"
  by (subst makedirs.simps)
    (simp add: makedirs_split_def posix_split_def rstrip_slash_def mkdir_def resolve_def
      embedded_null_def fs_len_Nil PATH_MAX_def)

lemma makedirs_plain:
  assumes "plain_name u" and "fs_path os (path_join sd u) = Inr du" and "lookup os du = None"
  shows "makedirs os (path_join sd u) = (None, os\<lparr>entries := AList.update du Dir (entries os)\<rparr>)"
proof -
  let ?ud = "path_join sd u"
  let ?head = "if list_all (\<lambda>c. c = CHR ''/'') sd then sd else rstrip_slash sd"
  have u: "u \<noteq> []" "hd u \<noteq> CHR ''/''" "CHR ''/'' \<notin> set u"
    using plain_name_hd [OF assms(1)] assms(1) by (simp_all add: plain_name_def)
  from assms(2) have nn: "\<not> embedded_null ?ud" and r: "resolve os ?ud = Inr du"
    by (simp_all add: fs_path_Inr)
  note base = user_dir_base [OF assms(1) r]
  have sp: "makedirs_split ?ud = (?head, u)"
    using posix_split_path_join [OF u(3,1), of sd] u(1) by (simp add: makedirs_split_def)
  have ex: "path_exists os ?head" if h: "?head \<noteq> []"
  proof -
    from h have sd: "sd \<noteq> []" by (auto simp: rstrip_slash_def split: if_splits)
    with base(1) have rs: "resolve os sd = Inr (butlast du)" by simp
    have rh: "resolve os ?head = Inr (butlast du)"
    proof (cases "list_all (\<lambda>c. c = CHR ''/'') sd")
      case True
      with rs show ?thesis by simp
    next
      case False
      with h have "rstrip_slash sd \<noteq> []" by simp
      with rs have "resolve os (rstrip_slash sd) = Inr (butlast du)" by (rule resolve_rstrip)
      with False show ?thesis by simp
    qed
    from nn have "\<not> embedded_null sd" by (simp add: embedded_null_path_join [OF u(2)])
    then have "\<not> embedded_null ?head"
      using set_rstrip_slash [of sd] by (auto simp: embedded_null_def)
    with rh base(3) show ?thesis by (simp add: path_exists_def fs_path_def)
  qed
  have c: "\<not> (fst (makedirs_split ?ud) \<noteq> [] \<and> snd (makedirs_split ?ud) \<noteq> []
      \<and> \<not> path_exists os (fst (makedirs_split ?ud)))"
    using ex by (auto simp only: sp fst_conv snd_conv)
  have md: "makedirs os ?ud = mkdir os ?ud"
    by (subst makedirs.simps) (simp only: c if_False)
  have ne: "?ud \<noteq> []" using u(1) by (rule path_join_not_Nil)
  have "last ?ud \<noteq> CHR ''/''"
    using plain_name_last [OF assms(1)] by (simp add: last_path_join [OF u(1)])
  with ne have strip: "rstrip_slash ?ud = ?ud" by (rule rstrip_slash_id)
  have len: "\<not> PATH_MAX \<le> fs_len ?ud" using resolve_Inr(2) [OF r] by simp
  show ?thesis
    unfolding md using nn len ne r assms(3) base(3)
    by (simp add: mkdir_def strip)
qed

lemma get_user_dir_Inr:
  assumes "get_user_dir srv os user = (Inr d, os1)"
  shows "d = path_join (storage_dir srv) user" and "d \<noteq> []"
proof -
  show d: "d = path_join (storage_dir srv) user"
    using assms by (auto simp: get_user_dir_def Let_def split: if_splits prod.splits option.splits)
  show "d \<noteq> []"
  proof
    assume "d = []"
    with d have e: "path_join (storage_dir srv) user = []" by simp
    have "\<not> path_exists os []"
      by (simp add: path_exists_def fs_path_def resolve_def embedded_null_def)
    with e assms show False
      by (simp add: get_user_dir_def makedirs_empty)
  qed
qed

lemma get_user_dir_exists:
  assumes "fs_path os (path_join (storage_dir srv) user) = Inr p" and "lookup os p = Some n"
  shows "get_user_dir srv os user = (Inr (path_join (storage_dir srv) user), os)"
  using assms by (simp add: get_user_dir_def path_exists_def)

text \<open>
  \<open>_get_user_dir\<close> for a user with a plain name whose directory can be reached: the directory
  is made when nothing has its name, and the file system is left as it is otherwise.
\<close>

lemma get_user_dir_plain:
  assumes "plain_name u" and "fs_path os (path_join (storage_dir srv) u) = Inr du"
  shows "get_user_dir srv os u = (Inr (path_join (storage_dir srv) u),
    if lookup os du = None then os\<lparr>entries := AList.update du Dir (entries os)\<rparr> else os)"
proof (cases "lookup os du")
  case None
  then have "\<not> path_exists os (path_join (storage_dir srv) u)"
    using assms(2) by (simp add: path_exists_def)
  then show ?thesis
    using makedirs_plain [OF assms None] by (simp add: get_user_dir_def None)
next
  case (Some n)
  with assms(2) show ?thesis
    by (simp add: get_user_dir_exists)
qed

lemma made_dir:
  assumes "os1 = (if lookup os du = None then os\<lparr>entries := AList.update du Dir (entries os)\<rparr> else os)"
  shows "lookup os1 p = (if p = du \<and> lookup os du = None then Some Dir else lookup os p)"
    and "cwd os1 = cwd os"
    and "lookup os r = Some Dir \<Longrightarrow> lookup os1 r = Some Dir"
proof -
  have ne: "lookup os du = None \<Longrightarrow> du \<noteq> []" by (auto simp: lookup_def)
  show "lookup os1 p = (if p = du \<and> lookup os du = None then Some Dir else lookup os p)"
    using ne by (simp add: assms lookup_update)
  show "cwd os1 = cwd os" by (simp add: assms)
  show "lookup os r = Some Dir \<Longrightarrow> lookup os1 r = Some Dir"
    using ne by (auto simp: assms lookup_update)
qed

lemma write_in_dir:
  assumes "plain_name v" and "fs_path os (path_join d v) = Inr q"
    and "lookup os q \<noteq> Some Dir" and "lookup os (butlast q) = Some Dir"
  shows "write_file os (path_join d v) content
    = Inr (os\<lparr>entries := AList.update q (File content) (entries os)\<rparr>)"
proof -
  have ne: "v \<noteq> []" using plain_name_hd [OF assms(1)] by simp
  have l: "last (path_join d v) \<noteq> CHR ''/''"
    using plain_name_last [OF assms(1)] by (simp add: last_path_join [OF ne])
  from assms(2) have n: "\<not> embedded_null (path_join d v)" and r: "resolve os (path_join d v) = Inr q"
    by (simp_all add: fs_path_Inr)
  show ?thesis
    using l n r assms(3,4)
    by (simp add: write_file_def split: option.splits node.splits)
qed

lemma filter_update_other:
  assumes "\<And>v'. \<not> P (k, v')"
  shows "filter P (AList.update k v xs) = filter P xs"
  using assms by (induction xs) auto

lemma children_made_dir:
  "children (os\<lparr>entries := AList.update du Dir (entries os)\<rparr>) du = children os du"
proof -
  have "\<And>v'. \<not> (fst (du, v') \<noteq> [] \<and> butlast (fst (du, v')) = du)"
    by (cases du rule: rev_cases) auto
  then have "filter (\<lambda>e. fst e \<noteq> [] \<and> butlast (fst e) = du) (AList.update du Dir (entries os))
      = filter (\<lambda>e. fst e \<noteq> [] \<and> butlast (fst e) = du) (entries os)"
    by (rule filter_update_other)
  then show ?thesis by (simp add: children_def)
qed

lemma children_made_dir_if:
  "children (if lookup os du = None then os\<lparr>entries := AList.update du Dir (entries os)\<rparr> else os) du
     = children os du"
  by (simp add: children_made_dir)

subsection \<open>Reading the command lines\<close>

lemma token_last: "token s \<Longrightarrow> \<not> isspace (last s)"
proof -
  assume t: "token s"
  then have "last s \<in> set s" by (simp add: token_def)
  with t show ?thesis by (simp add: token_def list_all_iff)
qed

lemma token_hd: "token s \<Longrightarrow> \<not> isspace (hd s)"
proof -
  assume t: "token s"
  then have "hd s \<in> set s" by (simp add: token_def)
  with t show ?thesis by (simp add: token_def list_all_iff)
qed

lemma parse_two:
  assumes "token v" and "token a"
  shows "split_maxsplit 2 (strip (v @ '' '' @ a)) = [v, a]"
proof -
  have "strip (v @ '' '' @ a) = v @ '' '' @ a"
  proof (rule strip_id)
    show "v @ '' '' @ a \<noteq> []" by simp
    show "\<not> isspace (hd (v @ '' '' @ a))"
      using assms(1) token_hd [OF assms(1)] by (simp add: token_def)
    show "\<not> isspace (last (v @ '' '' @ a))"
      using assms(2) token_last [OF assms(2)] by (simp add: token_def)
  qed
  then show ?thesis by (simp only: split_two_words [OF assms])
qed

lemma parse_three:
  assumes "token v" and "token a" and "token b"
  shows "split_maxsplit 2 (strip (v @ '' '' @ a @ '' '' @ b)) = [v, a, b]"
proof -
  have b: "b \<noteq> []" using assms(3) by (simp add: token_def)
  have "strip (v @ '' '' @ a @ '' '' @ b) = v @ '' '' @ a @ '' '' @ b"
  proof (rule strip_id)
    show "v @ '' '' @ a @ '' '' @ b \<noteq> []" by simp
    show "\<not> isspace (hd (v @ '' '' @ a @ '' '' @ b))"
      using assms(1) token_hd [OF assms(1)] by (simp add: token_def)
    show "\<not> isspace (last (v @ '' '' @ a @ '' '' @ b))"
      using b token_last [OF assms(3)] by simp
  qed
  then show ?thesis
    by (simp only: split_three_words [OF assms(1,2) b token_hd [OF assms(3)]])
qed

lemma strip_trailing_space:
  assumes "s \<noteq> []" and "\<not> isspace (hd s)" and "\<not> isspace (last s)"
  shows "strip (s @ '' '') = s"
proof -
  from assms have 1: "dropWhile isspace (s @ '' '') = s @ '' ''"
    by (cases s) simp_all
  from assms have "rev s \<noteq> []" "\<not> isspace (hd (rev s))"
    by (simp_all add: hd_rev)
  then have "dropWhile isspace (rev s) = rev s"
    by (cases "rev s") simp_all
  with 1 show ?thesis by (simp add: strip_def)
qed

lemma parse_two_trailing:
  assumes "token v" and "token a"
  shows "split_maxsplit 2 (strip (v @ '' '' @ a @ '' '')) = [v, a]"
proof -
  have "strip ((v @ '' '' @ a) @ '' '') = v @ '' '' @ a"
  proof (rule strip_trailing_space)
    show "v @ '' '' @ a \<noteq> []" by simp
    show "\<not> isspace (hd (v @ '' '' @ a))"
      using assms(1) token_hd [OF assms(1)] by (simp add: token_def)
    show "\<not> isspace (last (v @ '' '' @ a))"
      using assms(2) token_last [OF assms(2)] by (simp add: token_def)
  qed
  then have "strip (v @ '' '' @ a @ '' '') = v @ '' '' @ a" by simp
  then show ?thesis by (simp only: split_two_words [OF assms])
qed

lemma upper_verbs:
  "upper ''DELETE'' = ''DELETE''" "upper ''DOWNLOAD'' = ''DOWNLOAD''"
  "upper ''UPLOAD'' = ''UPLOAD''" "upper ''LIST'' = ''LIST''"
  by (simp_all add: upper_def to_upper_def)

lemma token_verbs: "token ''DELETE''" "token ''DOWNLOAD''" "token ''UPLOAD''" "token ''LIST''"
  by (simp_all add: token_def isspace_def)

lemma delete_command:
  assumes "token filename"
  shows "handle_command srv (Some user) os (''DELETE '' @ filename)
    = handle_delete srv user os [''DELETE'', filename]"
proof -
  have "split_maxsplit 2 (strip (''DELETE'' @ '' '' @ filename)) = [''DELETE'', filename]"
    using token_verbs(1) assms by (rule parse_two)
  then have "split_maxsplit 2 (strip (''DELETE '' @ filename)) = [''DELETE'', filename]"
    by simp
  then show ?thesis
    by (simp add: handle_command_dispatch upper_verbs)
qed

lemma download_command:
  assumes "token filename"
  shows "handle_command srv (Some user) os (''DOWNLOAD '' @ filename)
    = handle_download srv user os [''DOWNLOAD'', filename]"
proof -
  have "split_maxsplit 2 (strip (''DOWNLOAD'' @ '' '' @ filename)) = [''DOWNLOAD'', filename]"
    using token_verbs(2) assms by (rule parse_two)
  then have "split_maxsplit 2 (strip (''DOWNLOAD '' @ filename)) = [''DOWNLOAD'', filename]"
    by simp
  then show ?thesis
    by (simp add: handle_command_dispatch upper_verbs)
qed

lemma upload_command:
  assumes "token filename" and "token payload"
  shows "handle_command srv (Some user) os (''UPLOAD '' @ filename @ '' '' @ payload)
    = handle_upload srv user os [''UPLOAD'', filename, payload]"
proof -
  have "split_maxsplit 2 (strip (''UPLOAD'' @ '' '' @ filename @ '' '' @ payload))
      = [''UPLOAD'', filename, payload]"
    using token_verbs(3) assms by (rule parse_three)
  then have "split_maxsplit 2 (strip (''UPLOAD '' @ filename @ '' '' @ payload))
      = [''UPLOAD'', filename, payload]"
    by simp
  then show ?thesis
    by (simp add: handle_command_dispatch upper_verbs)
qed

lemma upload_command_no_payload:
  assumes "token filename"
  shows "handle_command srv (Some user) os (''UPLOAD '' @ filename @ '' '')
    = respond ''ERROR Invalid upload command'' (Some user) os"
proof -
  have "split_maxsplit 2 (strip (''UPLOAD'' @ '' '' @ filename @ '' '')) = [''UPLOAD'', filename]"
    using token_verbs(3) assms by (rule parse_two_trailing)
  then have "split_maxsplit 2 (strip (''UPLOAD '' @ filename @ '' '')) = [''UPLOAD'', filename]"
    by simp
  then show ?thesis
    by (simp add: handle_command_dispatch upper_verbs handle_upload_def)
qed

lemma b2a_base64_not_Nil: "bs \<noteq> [] \<Longrightarrow> b2a_base64 bs \<noteq> []"
  by (cases bs rule: b2a_base64.cases) simp_all

lemma token_b64encode: "bs \<noteq> [] \<Longrightarrow> token (b64encode bs)"
  using b2a_base64_chars alphabet_ascii
  by (fastforce simp: token_def b64encode_def list_all_iff b2a_base64_not_Nil)

subsection \<open>A DOWNLOAD after the store has changed\<close>

lemma download_after:
  assumes "token filename" and "hd filename \<noteq> CHR ''/''"
    and "path_join (storage_dir srv) user \<noteq> []"
    and "fs_path os1 (path_join (path_join (storage_dir srv) user) filename) = Inr q"
    and "\<And>r. lookup os1 r = Some Dir \<Longrightarrow> lookup os2 r = Some Dir"
    and "cwd os2 = cwd os1"
  shows "sent (handle_command srv (Some user) os2 (''DOWNLOAD '' @ filename)) =
    (case lookup os2 q of
       None \<Rightarrow> Some ''ERROR File not found''
     | Some (File content) \<Rightarrow> Some (''OK '' @ b64encode content)
     | Some Dir \<Rightarrow> Some (''ERROR Download failed: '' @ str_exception
         (OSError EISDIR (path_join (path_join (storage_dir srv) user) filename))))"
proof -
  let ?d = "path_join (storage_dir srv) user"
  from assms(4) have nn: "\<not> embedded_null (path_join ?d filename)"
    and rq: "resolve os1 (path_join ?d filename) = Inr q"
    by (simp_all add: fs_path_Inr)
  obtain p where p: "resolve os1 ?d = Inr p" "lookup os1 p = Some Dir"
    using assms(3,2) rq by (rule path_join_resolved)
  from nn have nd: "\<not> embedded_null ?d" by (simp add: embedded_null_path_join [OF assms(2)])
  have "resolve os2 ?d = Inr p"
    using assms(5,6) p(1) by (rule resolve_mono)
  with nd have "fs_path os2 ?d = Inr p" by (simp add: fs_path_Inr)
  moreover have "lookup os2 p = Some Dir" using p(2) by (rule assms(5))
  ultimately have g: "get_user_dir srv os2 user = (Inr ?d, os2)"
    by (rule get_user_dir_exists)
  have r: "fs_path os2 (path_join ?d filename) = Inr q"
    using assms(5,6,4) by (rule fs_path_mono)
  show ?thesis
    unfolding download_command [OF assms(1)]
    by (simp add: handle_download_def g read_file_def r respond_def
        split: option.splits node.splits)
qed

lemma remove_Inr:
  assumes "remove os name = Inr os'"
  obtains q content where "fs_path os name = Inr q" and "lookup os q = Some (File content)"
    and "q \<noteq> []" and "os' = os\<lparr>entries := AList.delete q (entries os)\<rparr>"
proof -
  from assms obtain q content where 1: "fs_path os name = Inr q"
    and 2: "lookup os q = Some (File content)"
    and 3: "os' = os\<lparr>entries := AList.delete q (entries os)\<rparr>"
    by (auto simp: remove_def split: sum.splits option.splits node.splits)
  from 2 have "q \<noteq> []" by (auto simp: lookup_def)
  with 1 2 3 show ?thesis by (intro that)
qed

text \<open>
  C9. When the DELETE of a file name of the user's own directory (a name that does not
  start at the root) is answered \<open>OK File deleted\<close>, a DOWNLOAD of the same name received
  next on the connection is answered \<open>ERROR File not found\<close>.
\<close>

theorem delete_then_download:
  assumes "token filename" and "hd filename \<noteq> CHR ''/''"
    and "sent (handle_command srv (Some user) os (''DELETE '' @ filename)) = Some ''OK File deleted''"
  shows "sent (handle_command srv (Some user)
           (fs (handle_command srv (Some user) os (''DELETE '' @ filename)))
           (''DOWNLOAD '' @ filename)) = Some ''ERROR File not found''"
proof -
  let ?out = "handle_command srv (Some user) os (''DELETE '' @ filename)"
  have out: "?out = handle_delete srv user os [''DELETE'', filename]"
    using assms(1) by (rule delete_command)
  have ok: "sent (handle_delete srv user os [''DELETE'', filename]) = Some ''OK File deleted''"
    using assms(3) by (simp only: out)
  obtain r os1 where g: "get_user_dir srv os user = (r, os1)"
    by (cases "get_user_dir srv os user") auto
  from ok obtain d where r: "r = Inr d"
    by (cases r) (simp_all add: handle_delete_def g raised_def)
  from ok obtain os2 where rm: "remove os1 (path_join d filename) = Inr os2"
    and fs': "fs (handle_delete srv user os [''DELETE'', filename]) = os2"
    by (cases "remove os1 (path_join d filename)")
      (auto simp: handle_delete_def g r respond_def split: exception.splits errno.splits)
  from fs' have fs: "fs ?out = os2" by (simp only: out)
  have d: "d = path_join (storage_dir srv) user" "d \<noteq> []"
    using g [unfolded r] by (rule get_user_dir_Inr)+
  from rm obtain q content where q: "fs_path os1 (path_join d filename) = Inr q"
    "lookup os1 q = Some (File content)" "q \<noteq> []"
    "os2 = os1\<lparr>entries := AList.delete q (entries os1)\<rparr>"
    by (rule remove_Inr)
  have keep: "\<And>r. lookup os1 r = Some Dir \<Longrightarrow> lookup os2 r = Some Dir"
    using q(2,3) by (auto simp: q(4) lookup_delete)
  have cwd: "cwd os2 = cwd os1" by (simp add: q(4))
  have gone: "lookup os2 q = None" using q(3) by (simp add: q(4) lookup_delete)
  have "sent (handle_command srv (Some user) os2 (''DOWNLOAD '' @ filename)) =
    (case lookup os2 q of
       None \<Rightarrow> Some ''ERROR File not found''
     | Some (File content) \<Rightarrow> Some (''OK '' @ b64encode content)
     | Some Dir \<Rightarrow> Some (''ERROR Download failed: '' @ str_exception
         (OSError EISDIR (path_join (path_join (storage_dir srv) user) filename))))"
    using assms(1,2) d(2) [unfolded d(1)] q(1) [unfolded d(1)] keep cwd
    by (rule download_after)
  with gone show ?thesis by (simp only: fs option.case)
qed

theorem delete_then_download_witness:
  "token ''f'' \<and> hd ''f'' \<noteq> CHR ''/''
   \<and> sent (handle_command example_server (Some ''bob'') example_os ''DELETE f'') = Some ''OK File deleted''
   \<and> sent (handle_command example_server (Some ''bob'')
        (fs (handle_command example_server (Some ''bob'') example_os ''DELETE f''))
        ''DOWNLOAD f'') = Some ''ERROR File not found''"
proof -
  have 1: "token ''f''" by code_simp
  have 2: "hd ''f'' \<noteq> CHR ''/''" by simp
  have 3: "sent (handle_command example_server (Some ''bob'') example_os (''DELETE '' @ ''f''))
      = Some ''OK File deleted''"
    by code_simp
  show ?thesis
    using 1 2 3 delete_then_download [OF 1 2 3] by simp
qed


text \<open>
  C1, as the code has it. The codec round-trips: \<open>b64decode (b64encode B) = B\<close> for every
  byte sequence \<open>B\<close>. Take a byte sequence that is not empty and a plain file name that the
  file system takes (no null character, within the limits of length) and that is not the
  name of a directory of the user's directory; let the user's directory be there, or let
  nothing have its name and the user's name be plain. Then the UPLOAD of the name with the
  payload \<open>b64encode B\<close>, received in one message, is answered \<open>OK File uploaded\<close>, the file
  holds \<open>B\<close>, and a DOWNLOAD of the same name received next on the connection is answered
  \<open>OK T\<close> with \<open>b64decode T = B\<close>.
\<close>

theorem upload_then_download:
  assumes "plain_name filename" and "\<not> embedded_null filename"
    and "fs_len filename \<le> NAME_MAX"
    and "fs_len (path_join (path_join (storage_dir srv) user) filename) < PATH_MAX"
    and "content \<noteq> []"
    and "fs_path os (path_join (storage_dir srv) user) = Inr du"
    and "lookup os du = Some Dir \<or> (plain_name user \<and> lookup os du = None)"
    and "lookup os (du @ [filename]) \<noteq> Some Dir"
  shows "b64decode (b64encode content) = Inr content
    \<and> sent (handle_command srv (Some user) os
          (''UPLOAD '' @ filename @ '' '' @ b64encode content)) = Some ''OK File uploaded''
    \<and> lookup (fs (handle_command srv (Some user) os
          (''UPLOAD '' @ filename @ '' '' @ b64encode content))) (du @ [filename])
        = Some (File content)
    \<and> sent (handle_command srv (Some user)
          (fs (handle_command srv (Some user) os
             (''UPLOAD '' @ filename @ '' '' @ b64encode content)))
          (''DOWNLOAD '' @ filename)) = Some (''OK '' @ b64encode content)"
proof -
  let ?ud = "path_join (storage_dir srv) user"
  let ?fp = "path_join ?ud filename"
  let ?q = "du @ [filename]"
  let ?out = "handle_command srv (Some user) os (''UPLOAD '' @ filename @ '' '' @ b64encode content)"
  define os1 where
    "os1 = (if lookup os du = None then os\<lparr>entries := AList.update du Dir (entries os)\<rparr> else os)"
  define os2 where "os2 = os1\<lparr>entries := AList.update ?q (File content) (entries os1)\<rparr>"
  have tok: "token filename" using assms(1) by (simp add: plain_name_def)
  have f: "hd filename \<noteq> CHR ''/''" using plain_name_hd [OF assms(1)] by simp
  have g: "get_user_dir srv os user = (Inr ?ud, os1)"
  proof (cases "lookup os du")
    case None
    with assms(7) have "plain_name user" by simp
    then show ?thesis using assms(6) by (simp only: os1_def get_user_dir_plain)
  next
    case (Some n)
    then have "os1 = os" by (simp add: os1_def)
    with get_user_dir_exists [OF assms(6) Some] show ?thesis by simp
  qed
  note m = made_dir [OF os1_def]
  have d1: "lookup os1 du = Some Dir" using assms(7) by (auto simp: m(1))
  have fp1: "fs_path os1 ?ud = Inr du" using m(3,2) assms(6) by (rule fs_path_mono)
  have q: "fs_path os1 ?fp = Inr ?q"
    using assms(2,3,4) d1 by (simp add: fs_path_in_dir [OF assms(1) fp1])
  have nq: "lookup os1 ?q \<noteq> Some Dir" using assms(8) by (simp add: m(1))
  have w: "write_file os1 ?fp content = Inr os2"
    unfolding os2_def using assms(1) q nq by (rule write_in_dir) (simp add: d1)
  have out: "?out = handle_upload srv user os [''UPLOAD'', filename, b64encode content]"
    using tok token_b64encode [OF assms(5)] by (rule upload_command)
  have hu: "handle_upload srv user os [''UPLOAD'', filename, b64encode content]
      = respond ''OK File uploaded'' (Some user) os2"
    by (simp add: handle_upload_def b64decode_b64encode g w)
  have s: "sent ?out = Some ''OK File uploaded''"
    unfolding out hu by (simp add: respond_def)
  have fs: "fs ?out = os2"
    unfolding out hu by (simp add: respond_def)
  have l2: "\<And>r. lookup os2 r = (if r = ?q then Some (File content) else lookup os1 r)"
    by (simp add: os2_def lookup_update)
  have there: "lookup (fs ?out) ?q = Some (File content)"
    unfolding fs by (simp add: l2)
  have keep: "\<And>r. lookup os1 r = Some Dir \<Longrightarrow> lookup os2 r = Some Dir"
    using nq by (auto simp: l2)
  have cwd: "cwd os2 = cwd os1" by (simp add: os2_def)
  have ne: "?ud \<noteq> []" using assms(6) by (auto simp: fs_path_Inr dest: resolve_Inr(1))
  have "sent (handle_command srv (Some user) os2 (''DOWNLOAD '' @ filename)) =
    (case lookup os2 ?q of
       None \<Rightarrow> Some ''ERROR File not found''
     | Some (File content) \<Rightarrow> Some (''OK '' @ b64encode content)
     | Some Dir \<Rightarrow> Some (''ERROR Download failed: '' @ str_exception (OSError EISDIR ?fp)))"
    using tok f ne q keep cwd by (rule download_after)
  moreover have "lookup os2 ?q = Some (File content)" by (simp add: l2)
  ultimately have dl: "sent (handle_command srv (Some user) (fs ?out) (''DOWNLOAD '' @ filename))
      = Some (''OK '' @ b64encode content)"
    unfolding fs by (simp only: option.case node.case)
  from b64decode_b64encode [of content] s there dl show ?thesis
    by (intro conjI)
qed

theorem upload_then_download_witness:
  "b64encode [104, 101, 108, 108, 111] = ''aGVsbG8=''
   \<and> lookup first_os [''srv'', ''storage'', ''alice''] = None
   \<and> sent (handle_command example_server (Some ''alice'') first_os ''UPLOAD notes.txt aGVsbG8='')
       = Some ''OK File uploaded''
   \<and> sent (handle_command example_server (Some ''alice'')
        (fs (handle_command example_server (Some ''alice'') first_os ''UPLOAD notes.txt aGVsbG8=''))
        ''DOWNLOAD notes.txt'') = Some ''OK aGVsbG8=''
   \<and> b64decode ''aGVsbG8='' = Inr [104, 101, 108, 108, 111]"
proof -
  have e: "b64encode [104, 101, 108, 108, 111] = ''aGVsbG8=''" by code_simp
  have 1: "plain_name ''notes.txt''" by code_simp
  have 2: "\<not> embedded_null ''notes.txt''" by code_simp
  have 3: "fs_len ''notes.txt'' \<le> NAME_MAX" by code_simp
  have 4: "fs_len (path_join (path_join (storage_dir example_server) ''alice'') ''notes.txt'')
      < PATH_MAX"
    by code_simp
  have 5: "[104, 101, 108, 108, 111] \<noteq> ([] :: byte list)" by simp
  have 6: "fs_path first_os (path_join (storage_dir example_server) ''alice'')
      = Inr [''srv'', ''storage'', ''alice'']"
    by code_simp
  have n: "lookup first_os [''srv'', ''storage'', ''alice''] = None" by code_simp
  have p: "plain_name ''alice''" by code_simp
  from p n have 7: "lookup first_os [''srv'', ''storage'', ''alice''] = Some Dir
      \<or> (plain_name ''alice'' \<and> lookup first_os [''srv'', ''storage'', ''alice''] = None)"
    by simp
  have 8: "lookup first_os ([''srv'', ''storage'', ''alice''] @ [''notes.txt'']) \<noteq> Some Dir"
    by code_simp
  show ?thesis
    using e n upload_then_download [OF 1 2 3 4 5 6 7 8]
    by simp
qed

text \<open>
  C1 as stated fails. For the empty byte sequence the payload is the empty token, the
  command line loses it with the trailing space, and the UPLOAD is refused; the DOWNLOAD
  that follows finds no file. And not every file name is taken: one that is a directory,
  one with a null character and one that is too long are refused.
\<close>

theorem upload_not_accepted:
  "b64encode [] = []
   \<and> sent (handle_command example_server (Some ''alice'') example_os
        (''UPLOAD empty.bin '' @ b64encode [])) = Some ''ERROR Invalid upload command''
   \<and> sent (handle_command example_server (Some ''alice'')
        (fs (handle_command example_server (Some ''alice'') example_os
           (''UPLOAD empty.bin '' @ b64encode [])))
        ''DOWNLOAD empty.bin'') = Some ''ERROR File not found''
   \<and> sent (handle_command example_server (Some ''alice'') example_os ''UPLOAD .. aGk='')
       = Some (''ERROR Upload failed: [Errno 21] Is a directory: '' @ repr ''storage/alice/..'')
   \<and> sent (handle_command example_server (Some ''alice'')
        (fs (handle_command example_server (Some ''alice'') example_os ''UPLOAD .. aGk=''))
        ''DOWNLOAD ..'')
       = Some (''ERROR Download failed: [Errno 21] Is a directory: '' @ repr ''storage/alice/..'')
   \<and> sent (handle_command example_server (Some ''alice'') example_os
        (''UPLOAD a'' @ [CHR 0x00] @ ''b aGk='')) = Some ''ERROR Upload failed: embedded null byte''
   \<and> sent (handle_command example_server (Some ''alice'') example_os
        (''UPLOAD '' @ replicate 256 (CHR ''a'') @ '' aGk=''))
       = Some (''ERROR Upload failed: [Errno 36] File name too long: ''
           @ repr (''storage/alice/'' @ replicate 256 (CHR ''a'')))"
  by code_simp
section \<open>One user's files and another's\<close>

lemma list_command: "handle_command srv (Some user) os ''LIST'' = handle_list srv user os"
proof -
  have "split_maxsplit 2 (strip ''LIST'') = [''LIST'']"
    by (simp add: strip_def isspace_def numeral_2_eq_2)
  then show ?thesis
    by (simp add: handle_command_dispatch upper_verbs)
qed

lemma set_children: "set (children os d) = {n. lookup os (d @ [n]) \<noteq> None}"
proof (intro set_eqI iffI)
  fix n assume "n \<in> set (children os d)"
  then obtain p x where e: "(p, x) \<in> set (entries os)" and p: "p \<noteq> []" "butlast p = d" "last p = n"
    by (auto simp: children_def)
  from p have "p = d @ [n]" by (metis append_butlast_last_id)
  with e have "d @ [n] \<in> fst ` set (entries os)" by force
  then have "map_of (entries os) (d @ [n]) \<noteq> None" by (simp add: map_of_eq_None_iff)
  then show "n \<in> {n. lookup os (d @ [n]) \<noteq> None}" by (simp add: lookup_def)
next
  fix n assume "n \<in> {n. lookup os (d @ [n]) \<noteq> None}"
  then have "map_of (entries os) (d @ [n]) \<noteq> None" by (simp add: lookup_def)
  then obtain x where "(d @ [n], x) \<in> set (entries os)"
    by (auto dest: map_of_SomeD)
  then have "last (fst (d @ [n], x)) \<in>
      (\<lambda>e. last (fst e)) ` {e \<in> set (entries os). fst e \<noteq> [] \<and> butlast (fst e) = d}"
    by (intro imageI) simp
  then show "n \<in> set (children os d)" by (simp add: children_def)
qed

text \<open>
  C7, as the code has it. Take two users \<open>A\<close> and \<open>B\<close> with different plain names, whose
  directories \<open>dA\<close> and \<open>dB\<close> can be reached (the storage directory is there, as
  \<open>_ensure_storage_exists\<close> leaves it), and a plain file name \<open>F\<close>. Nothing in or under \<open>dA\<close>
  is in or under \<open>dB\<close>. On a connection authenticated as \<open>A\<close>, DOWNLOAD and DELETE of \<open>F\<close>
  are answered from the entry \<open>F\<close> of \<open>dA\<close> alone: \<open>ERROR File not found\<close> when \<open>A\<close> has no
  \<open>F\<close>, whatever \<open>B\<close> has, the content or \<open>OK File deleted\<close> when \<open>A\<close> has the file, and
  \<open>ERROR Download failed\<close> or \<open>ERROR Delete failed\<close> when the file system refuses the name
  or \<open>dA\<close> is a file. LIST gives the names of the entries of \<open>dA\<close>. The commands make \<open>dA\<close>
  when nothing has its name, DELETE removes the entry \<open>F\<close> of \<open>dA\<close>, and no other path
  changes.
\<close>

theorem namespace_isolation:
  assumes "plain_name A" and "plain_name B" and "A \<noteq> B" and "plain_name F"
    and "fs_path os (path_join (storage_dir srv) A) = Inr dA"
    and "fs_path os (path_join (storage_dir srv) B) = Inr dB"
  shows "(\<forall>rest rest'. dA @ rest \<noteq> dB @ rest')
    \<and> sent (handle_command srv (Some A) os (''DOWNLOAD '' @ F)) = Some
        (let name = path_join (path_join (storage_dir srv) A) F in
         if embedded_null F then ''ERROR Download failed: embedded null byte''
         else if PATH_MAX \<le> fs_len name
           then ''ERROR Download failed: '' @ str_exception (OSError ENAMETOOLONG name)
         else case lookup os dA of
           Some (File content) \<Rightarrow> ''ERROR Download failed: '' @ str_exception (OSError ENOTDIR name)
         | _ \<Rightarrow>
             if NAME_MAX < fs_len F
               then ''ERROR Download failed: '' @ str_exception (OSError ENAMETOOLONG name)
             else case lookup os (dA @ [F]) of
               None \<Rightarrow> ''ERROR File not found''
             | Some (File content) \<Rightarrow> ''OK '' @ b64encode content
             | Some Dir \<Rightarrow> ''ERROR Download failed: '' @ str_exception (OSError EISDIR name))
    \<and> (\<forall>p. lookup (fs (handle_command srv (Some A) os (''DOWNLOAD '' @ F))) p
          = (if p = dA \<and> lookup os dA = None then Some Dir else lookup os p))
    \<and> sent (handle_command srv (Some A) os (''DELETE '' @ F)) = Some
        (let name = path_join (path_join (storage_dir srv) A) F in
         if embedded_null F then ''ERROR Delete failed: embedded null byte''
         else if PATH_MAX \<le> fs_len name
           then ''ERROR Delete failed: '' @ str_exception (OSError ENAMETOOLONG name)
         else case lookup os dA of
           Some (File content) \<Rightarrow> ''ERROR Delete failed: '' @ str_exception (OSError ENOTDIR name)
         | _ \<Rightarrow>
             if NAME_MAX < fs_len F
               then ''ERROR Delete failed: '' @ str_exception (OSError ENAMETOOLONG name)
             else case lookup os (dA @ [F]) of
               None \<Rightarrow> ''ERROR File not found''
             | Some (File content) \<Rightarrow> ''OK File deleted''
             | Some Dir \<Rightarrow> ''ERROR Delete failed: '' @ str_exception (OSError EISDIR name))
    \<and> (\<forall>p. p \<noteq> dA @ [F] \<longrightarrow>
          lookup (fs (handle_command srv (Some A) os (''DELETE '' @ F))) p
          = (if p = dA \<and> lookup os dA = None then Some Dir else lookup os p))
    \<and> sent (handle_command srv (Some A) os ''LIST'') = Some
        (case lookup os dA of
           Some (File content) \<Rightarrow> ''ERROR List failed: '' @ str_exception
             (OSError ENOTDIR (path_join (storage_dir srv) A))
         | _ \<Rightarrow> ''OK '' @ json_dumps (children os dA))
    \<and> set (children os dA) = {n. lookup os (dA @ [n]) \<noteq> None}
    \<and> (\<forall>p. lookup (fs (handle_command srv (Some A) os ''LIST'')) p
          = (if p = dA \<and> lookup os dA = None then Some Dir else lookup os p))"
proof -
  let ?ud = "path_join (storage_dir srv) A"
  let ?fp = "path_join ?ud F"
  let ?q = "dA @ [F]"
  define os1 where
    "os1 = (if lookup os dA = None then os\<lparr>entries := AList.update dA Dir (entries os)\<rparr> else os)"
  from assms(5) have rA: "resolve os ?ud = Inr dA" by (simp add: fs_path_Inr)
  from assms(6) have rB: "resolve os (path_join (storage_dir srv) B) = Inr dB"
    by (simp add: fs_path_Inr)
  note bA = user_dir_base [OF assms(1) rA]
  note bB = user_dir_base [OF assms(2) rB]
  from bA(1) bB(1) have same: "butlast dA = butlast dB" by simp
  have apart: "\<forall>rest rest'. dA @ rest \<noteq> dB @ rest'"
  proof (intro allI notI)
    fix rest rest'
    assume "dA @ rest = dB @ rest'"
    then have "(butlast dA @ [A]) @ rest = (butlast dB @ [B]) @ rest'"
      using bA(2) bB(2) by (simp only:)
    with same assms(3) show False by simp
  qed
  have tok: "token F" using assms(4) by (simp add: plain_name_def)
  have g: "get_user_dir srv os A = (Inr ?ud, os1)"
    using assms(1,5) by (simp only: os1_def get_user_dir_plain)
  note m = made_dir [OF os1_def]
  have fp1: "fs_path os1 ?ud = Inr dA" using m(3,2) assms(5) by (rule fs_path_mono)
  have k1: "lookup os1 dA = (case lookup os dA of None \<Rightarrow> Some Dir | Some n \<Rightarrow> Some n)"
    by (simp add: m(1) split: option.splits)
  have k2: "lookup os1 ?q = lookup os ?q" by (simp add: m(1))
  note inside = fs_path_in_dir [OF assms(4) fp1]
  have frame: "\<forall>p. lookup os1 p = (if p = dA \<and> lookup os dA = None then Some Dir else lookup os p)"
    by (simp add: m(1))
  have dl: "handle_command srv (Some A) os (''DOWNLOAD '' @ F)
      = handle_download srv A os [''DOWNLOAD'', F]"
    using tok by (rule download_command)
  have de: "handle_command srv (Some A) os (''DELETE '' @ F)
      = handle_delete srv A os [''DELETE'', F]"
    using tok by (rule delete_command)
  have 1: "sent (handle_command srv (Some A) os (''DOWNLOAD '' @ F)) = Some
        (let name = ?fp in
         if embedded_null F then ''ERROR Download failed: embedded null byte''
         else if PATH_MAX \<le> fs_len name
           then ''ERROR Download failed: '' @ str_exception (OSError ENAMETOOLONG name)
         else case lookup os dA of
           Some (File content) \<Rightarrow> ''ERROR Download failed: '' @ str_exception (OSError ENOTDIR name)
         | _ \<Rightarrow>
             if NAME_MAX < fs_len F
               then ''ERROR Download failed: '' @ str_exception (OSError ENAMETOOLONG name)
             else case lookup os ?q of
               None \<Rightarrow> ''ERROR File not found''
             | Some (File content) \<Rightarrow> ''OK '' @ b64encode content
             | Some Dir \<Rightarrow> ''ERROR Download failed: '' @ str_exception (OSError EISDIR name))"
    unfolding dl
    by (simp add: handle_download_def g read_file_def inside k1 k2 respond_def Let_def
        str_exception_ValueError split: option.splits node.splits)
  have "fs (handle_command srv (Some A) os (''DOWNLOAD '' @ F)) = os1"
    unfolding dl
    by (simp add: handle_download_def g respond_def
        split: sum.splits exception.splits errno.splits)
  with frame have 2: "\<forall>p. lookup (fs (handle_command srv (Some A) os (''DOWNLOAD '' @ F))) p
      = (if p = dA \<and> lookup os dA = None then Some Dir else lookup os p)"
    by simp
  have 3: "sent (handle_command srv (Some A) os (''DELETE '' @ F)) = Some
        (let name = ?fp in
         if embedded_null F then ''ERROR Delete failed: embedded null byte''
         else if PATH_MAX \<le> fs_len name
           then ''ERROR Delete failed: '' @ str_exception (OSError ENAMETOOLONG name)
         else case lookup os dA of
           Some (File content) \<Rightarrow> ''ERROR Delete failed: '' @ str_exception (OSError ENOTDIR name)
         | _ \<Rightarrow>
             if NAME_MAX < fs_len F
               then ''ERROR Delete failed: '' @ str_exception (OSError ENAMETOOLONG name)
             else case lookup os ?q of
               None \<Rightarrow> ''ERROR File not found''
             | Some (File content) \<Rightarrow> ''OK File deleted''
             | Some Dir \<Rightarrow> ''ERROR Delete failed: '' @ str_exception (OSError EISDIR name))"
    unfolding de
    by (simp add: handle_delete_def g remove_def inside k1 k2 respond_def Let_def
        str_exception_ValueError split: option.splits node.splits)
  have "fs (handle_command srv (Some A) os (''DELETE '' @ F)) = os1
      \<or> fs (handle_command srv (Some A) os (''DELETE '' @ F))
          = os1\<lparr>entries := AList.delete ?q (entries os1)\<rparr>"
    unfolding de
    by (simp add: handle_delete_def g remove_def inside respond_def
        split: sum.splits exception.splits errno.splits option.splits node.splits)
  then have 4: "\<forall>p. p \<noteq> ?q \<longrightarrow>
      lookup (fs (handle_command srv (Some A) os (''DELETE '' @ F))) p
      = (if p = dA \<and> lookup os dA = None then Some Dir else lookup os p)"
    using frame by (auto simp: lookup_delete)
  have li: "handle_command srv (Some A) os ''LIST'' = handle_list srv A os"
    by (rule list_command)
  have ch: "children os1 dA = children os dA"
    by (simp only: os1_def children_made_dir_if)
  have 5: "sent (handle_command srv (Some A) os ''LIST'') = Some
        (case lookup os dA of
           Some (File content) \<Rightarrow> ''ERROR List failed: '' @ str_exception (OSError ENOTDIR ?ud)
         | _ \<Rightarrow> ''OK '' @ json_dumps (children os dA))"
    unfolding li
    by (simp add: handle_list_def g listdir_def fp1 k1 ch respond_def
        split: option.splits node.splits)
  have "fs (handle_command srv (Some A) os ''LIST'') = os1"
    unfolding li
    by (simp add: handle_list_def g respond_def split: sum.splits)
  with frame have 6: "\<forall>p. lookup (fs (handle_command srv (Some A) os ''LIST'')) p
      = (if p = dA \<and> lookup os dA = None then Some Dir else lookup os p)"
    by simp
  from apart 1 2 3 4 5 set_children [of os dA] 6 show ?thesis
    by (intro conjI)
qed

theorem namespace_isolation_witness:
  "plain_name ''alice'' \<and> plain_name ''bob'' \<and> ''alice'' \<noteq> ''bob'' \<and> plain_name ''f''
   \<and> fs_path first_os (path_join (storage_dir example_server) ''alice'')
       = Inr [''srv'', ''storage'', ''alice'']
   \<and> fs_path first_os (path_join (storage_dir example_server) ''bob'')
       = Inr [''srv'', ''storage'', ''bob'']
   \<and> lookup first_os [''srv'', ''storage'', ''alice''] = None
   \<and> lookup first_os [''srv'', ''storage'', ''bob'', ''f''] = Some (File [104, 105])
   \<and> sent (handle_command example_server (Some ''alice'') first_os ''DOWNLOAD f'')
       = Some ''ERROR File not found''
   \<and> sent (handle_command example_server (Some ''alice'') first_os ''DELETE f'')
       = Some ''ERROR File not found''
   \<and> lookup (fs (handle_command example_server (Some ''alice'') first_os ''DELETE f''))
       [''srv'', ''storage'', ''bob'', ''f''] = Some (File [104, 105])
   \<and> lookup (fs (handle_command example_server (Some ''alice'') first_os ''DELETE f''))
       [''srv'', ''storage'', ''alice''] = Some Dir
   \<and> sent (handle_command example_server (Some ''alice'') first_os ''LIST'') = Some ''OK []''"
proof -
  have 1: "plain_name ''alice''" and 2: "plain_name ''bob''" and 4: "plain_name ''f''"
    by code_simp+
  have 3: "''alice'' \<noteq> ''bob''" by simp
  have 5: "fs_path first_os (path_join (storage_dir example_server) ''alice'')
      = Inr [''srv'', ''storage'', ''alice'']"
    by code_simp
  have 6: "fs_path first_os (path_join (storage_dir example_server) ''bob'')
      = Inr [''srv'', ''storage'', ''bob'']"
    by code_simp
  have a: "lookup first_os [''srv'', ''storage'', ''alice''] = None" by code_simp
  have b: "lookup first_os ([''srv'', ''storage'', ''alice''] @ [''f'']) = None" by code_simp
  have c: "lookup first_os [''srv'', ''storage'', ''bob'', ''f''] = Some (File [104, 105])"
    by code_simp
  have n: "\<not> embedded_null ''f''" by code_simp
  have l: "\<not> PATH_MAX \<le> fs_len (path_join (path_join (storage_dir example_server) ''alice'') ''f'')"
    by code_simp
  have s: "\<not> NAME_MAX < fs_len ''f''" by code_simp
  have ch: "children first_os [''srv'', ''storage'', ''alice''] = []" by code_simp
  have j: "json_dumps [] = ''[]''" by code_simp
  note t = namespace_isolation [OF 1 2 3 4 5 6]
  have dl: "sent (handle_command example_server (Some ''alice'') first_os (''DOWNLOAD '' @ ''f''))
      = Some ''ERROR File not found''"
    using t a b n l s by (simp add: Let_def)
  have de: "sent (handle_command example_server (Some ''alice'') first_os (''DELETE '' @ ''f''))
      = Some ''ERROR File not found''"
    using t a b n l s by (simp add: Let_def)
  have keep: "lookup (fs (handle_command example_server (Some ''alice'') first_os (''DELETE '' @ ''f'')))
      [''srv'', ''storage'', ''bob'', ''f''] = Some (File [104, 105])"
    using t c by simp
  have made: "lookup (fs (handle_command example_server (Some ''alice'') first_os (''DELETE '' @ ''f'')))
      [''srv'', ''storage'', ''alice''] = Some Dir"
    using t a by simp
  have li: "sent (handle_command example_server (Some ''alice'') first_os ''LIST'') = Some ''OK []''"
    using t a ch j by simp
  show ?thesis
    using 1 2 3 4 5 6 a c dl de keep made li by simp
qed

text \<open>
  C7 as stated fails: file names are not checked, and a name that climbs out of the user's
  directory reaches the file of another user.
\<close>

theorem path_traversal_reaches_other_user:
  "lookup example_os [''srv'', ''storage'', ''bob'', ''f''] = Some (File [104, 105])
   \<and> sent (handle_command example_server (Some ''alice'') example_os ''DOWNLOAD ../bob/f'')
       = Some (''OK '' @ b64encode [104, 105])
   \<and> sent (handle_command example_server (Some ''alice'') example_os ''DELETE ../bob/f'')
       = Some ''OK File deleted''
   \<and> lookup (fs (handle_command example_server (Some ''alice'') example_os ''DELETE ../bob/f''))
       [''srv'', ''storage'', ''bob'', ''f''] = None"
  by code_simp

end
